theory Spec2Isabelle
  imports Complex_Main "HOL-Library.Word"
begin

chapter \<open>Definitions\<close>

section \<open>Faults shared by the embedded code\<close>

text \<open>
  Every way in which the embedded C++ can leave its normal path is a value:
  a thrown \<open>std::out_of_range\<close>, a failed \<open>assert\<close>, a read, write or iterator step
  outside a container, an exception that nothing catches, a busy-wait loop that
  never ends because no message arrives, an integer division by zero or with a
  quotient outside the type, and control that reaches the end of a function declared
  with a result without meeting a \<open>return\<close>.
\<close>

datatype fault =
    OutOfRange
  | AssertFailed
  | OutOfBounds
  | Uncaught
  | Blocked
  | DivideError
  | NoReturn

section \<open>LazyArray (Galois/LazyArray.h)\<close>

text \<open>
  \<open>LazyArray<_Tp, _Size>\<close> holds raw storage for \<open>max _Size 1\<close> slots. The private
  \<open>get(n)\<close> returns the address of slot \<open>n\<close>, a \<open>_Tp*\<close>. The element accessors
  differ in what they make of it: \<open>operator[]\<close>, \<open>front\<close> and \<open>back\<close> return
  \<open>*get(n)\<close>, the slot itself; \<open>at\<close> returns \<open>get(n)\<close> as it is. The two kinds of
  C++ expression value are kept apart by a datatype.
\<close>

datatype slot_value =
    SlotPointer nat   \<comment> \<open>a \<open>_Tp*\<close> holding the address of slot \<open>n\<close>\<close>
  | SlotLvalue nat    \<comment> \<open>the object in slot \<open>n\<close>, what a \<open>_Tp&\<close> binds to\<close>

record 'a LazyArray =
  Size :: nat
  datac :: "'a list"

definition get :: "'a LazyArray \<Rightarrow> nat \<Rightarrow> slot_value" where
  "get arr n = SlotPointer n"

fun deref :: "slot_value \<Rightarrow> slot_value" where
  "deref (SlotPointer n) = SlotLvalue n"
| "deref (SlotLvalue n) = SlotLvalue n"

definition subscript :: "'a LazyArray \<Rightarrow> nat \<Rightarrow> slot_value" where
  "subscript arr n = deref (get arr n)"

definition LazyArray_at :: "'a LazyArray \<Rightarrow> nat \<Rightarrow> fault + slot_value" where
  "LazyArray_at arr n = (if n \<ge> Size arr then Inl OutOfRange else Inr (get arr n))"

section \<open>Mirror owner lookup (DistributedGraph_CustomEdgeCut.h)\<close>

text \<open>
  \<open>std::lower_bound(vec.begin(), vec.end(), gid)\<close>: the bisection of the standard
  library, returning the offset of the resulting iterator from \<open>vec.begin()\<close>.
  Global node ids are 64-bit unsigned values; they are only compared here, so they are
  natural numbers.
\<close>

function lower_bound_loop :: "nat list \<Rightarrow> nat \<Rightarrow> nat \<Rightarrow> nat \<Rightarrow> nat" where
  "lower_bound_loop vec val first len =
     (if 0 < len then
        (let half = len div 2; middle = first + half in
         if vec ! middle < val
         then lower_bound_loop vec val (middle + 1) (len - half - 1)
         else lower_bound_loop vec val first half)
      else first)"
  by pat_completeness auto
termination
  by (relation "measure (\<lambda>(vec, val, first, len). len)") auto

declare lower_bound_loop.simps [simp del]

definition lower_bound :: "nat list \<Rightarrow> nat \<Rightarrow> nat" where
  "lower_bound vec val = lower_bound_loop vec val 0 (length vec)"

definition uint32_max :: nat where
  "uint32_max = 4294967295"

text \<open>
  \<open>find_hostID(vec, gid, from_hostID)\<close>. The condition is
  \<open>(*iter == gid) && (iter != vec.end())\<close>: the left operand is evaluated first, so
  \<open>*iter\<close> is read before \<open>iter\<close> is compared with \<open>vec.end()\<close>. A read at
  \<open>vec.end()\<close> is outside the vector.
\<close>

definition find_hostID :: "nat list \<Rightarrow> nat \<Rightarrow> nat \<Rightarrow> fault + nat" where
  "find_hostID vec gid from_hostID =
     (let iter = lower_bound vec gid in
      if iter < length vec then
        (if vec ! iter = gid \<and> iter \<noteq> length vec then Inr from_hostID
         else Inr uint32_max)
      else Inl OutOfBounds)"

section \<open>The for-each executor (Galois/Runtime/ParallelWork.h)\<close>

text \<open>
  \<open>LoopStatistics\<close>: two \<open>unsigned long\<close> counters, incremented with \<open>++\<close>.
\<close>

record LoopStatistics =
  conflicts :: "64 word"
  iterations :: "64 word"

definition inc_iterations :: "LoopStatistics \<Rightarrow> LoopStatistics" where
  "inc_iterations st = st\<lparr>iterations := iterations st + 1\<rparr>"

definition inc_conflicts :: "LoopStatistics \<Rightarrow> LoopStatistics" where
  "inc_conflicts st = st\<lparr>conflicts := conflicts st + 1\<rparr>"

text \<open>
  \<open>Configurator<Function>\<close>: the five compile-time constants computed from the
  operator's traits.
\<close>

record Configurator =
  CollectStats :: bool
  NeedsBreak :: bool
  NeedsPush :: bool
  NeedsContext :: bool
  NeedsPIA :: bool

text \<open>
  Modelled from the spec: \<open>Galois::UserContext\<close>, the user-facing context of a worker
  (its header is not among the sources): a push buffer, a break flag and a
  per-iteration allocator, a bump arena of which only the amount handed out since the
  last reset is kept. \<open>__resetBreakHappened\<close>, \<open>__getPushBuffer().clear()\<close> and
  \<open>__resetAlloc\<close> clear the respective field; \<open>__breakHappened\<close> reads the flag.
\<close>

record 'v UserContext =
  pushBuffer :: "'v list"
  breakHappened :: bool
  allocated :: nat

definition resetBreakHappened :: "'v UserContext \<Rightarrow> 'v UserContext" where
  "resetBreakHappened c = c\<lparr>breakHappened := False\<rparr>"

definition clearPushBuffer :: "'v UserContext \<Rightarrow> 'v UserContext" where
  "clearPushBuffer c = c\<lparr>pushBuffer := []\<rparr>"

definition resetAlloc :: "'v UserContext \<Rightarrow> 'v UserContext" where
  "resetAlloc c = c\<lparr>allocated := 0\<rparr>"

text \<open>
  Modelled from the spec: the conflict-tracking context \<open>SimpleRuntimeContext\<close> and the
  global \<open>clearConflictLock\<close> (Context.h is not among the sources). What they do to
  the locks is outside the executor; the field \<open>cnx\<close> of the thread-local data records
  the calls the executor makes, in order.
\<close>

datatype runtime_call =
    clearConflictLock
  | start_iteration
  | cancel_iteration
  | commit_iteration

record 'v tldTy =
  facing :: "'v UserContext"
  cnx :: "runtime_call list"
  stat :: LoopStatistics

text \<open>
  The part of \<open>ForEachWork\<close> shared by the workers. The two flags are
  \<open>volatile long\<close> cells that hold 0 or 1.

  Modelled from the spec: the worklists \<open>global_wl\<close> and \<open>aborted\<close> (WorkList.h is
  not among the sources) are containers with \<open>push\<close> and \<open>pop\<close>; they are kept as
  the sequence of items in the order in which they were pushed.
\<close>

record 'v ForEachWork =
  global_wl :: "'v list"
  aborted :: "'v list"
  break_happened :: int
  abort_happened :: int

definition push :: "'v list \<Rightarrow> 'v \<Rightarrow> 'v list" where
  "push wl v = wl @ [v]"

text \<open>
  The operator \<open>f(val, tld.facing)\<close> works on the user-facing context and either
  returns, throws an \<open>int\<close> (the conflict signal, the only exception \<open>doProcess\<close>
  catches) or throws something else. The context it leaves behind is the one at the
  moment of the return or of the throw.
\<close>

datatype outcome = Returned | ThrewInt int | ThrewOther

type_synonym 'v operator = "'v \<Rightarrow> 'v UserContext \<Rightarrow> outcome \<times> 'v UserContext"

definition finishIteration ::
  "Configurator \<Rightarrow> bool \<Rightarrow> 'v \<Rightarrow> 'v ForEachWork \<times> 'v tldTy \<Rightarrow> 'v ForEachWork \<times> 'v tldTy" where
  "finishIteration cfg aborting val st =
     (let (w, tld) = st;
          (w, tld) =
            (if aborting then
               (let tld = tld\<lparr>cnx := cnx tld @ [clearConflictLock, cancel_iteration]\<rparr>;
                    tld = tld\<lparr>stat := inc_conflicts (stat tld)\<rparr>;
                    w = w\<lparr>aborted := push (aborted w) val\<rparr>;
                    w = w\<lparr>abort_happened := 1\<rparr>;
                    tld = tld\<lparr>facing := resetBreakHappened (facing tld)\<rparr>;
                    tld = tld\<lparr>facing := clearPushBuffer (facing tld)\<rparr>
                in (w, tld))
             else (w, tld));
          (w, tld) =
            (if NeedsPush cfg then
               (w\<lparr>global_wl := foldl push (global_wl w) (pushBuffer (facing tld))\<rparr>,
                tld\<lparr>facing := clearPushBuffer (facing tld)\<rparr>)
             else (w, tld));
          tld = (if NeedsPIA cfg then tld\<lparr>facing := resetAlloc (facing tld)\<rparr> else tld);
          w = (if NeedsBreak cfg \<and> breakHappened (facing tld)
               then w\<lparr>break_happened := 1\<rparr> else w);
          tld = (if \<not> aborting then tld\<lparr>cnx := cnx tld @ [commit_iteration]\<rparr> else tld)
      in (w, tld))"

definition doProcess ::
  "Configurator \<Rightarrow> 'v operator \<Rightarrow> 'v \<Rightarrow> 'v ForEachWork \<times> 'v tldTy
     \<Rightarrow> fault + 'v ForEachWork \<times> 'v tldTy" where
  "doProcess cfg f val st =
     (let (w, tld) = st;
          tld = tld\<lparr>stat := inc_iterations (stat tld)\<rparr>;
          tld = tld\<lparr>cnx := cnx tld @ [start_iteration]\<rparr>;
          (out, fc) = f val (facing tld);
          tld = tld\<lparr>facing := fc\<rparr>
      in case out of
           Returned \<Rightarrow> Inr (finishIteration cfg False val (w, tld))
         | ThrewInt a \<Rightarrow> Inr (finishIteration cfg True val (w, tld))
         | ThrewOther \<Rightarrow> Inl Uncaught)"

subsection \<open>The initial fill\<close>

text \<open>
  \<open>FillWork\<close> computes with \<open>int\<close>: 32-bit two's complement values, with the
  wrap-around of the machine written out, and \<open>/\<close> truncating towards zero. A
  division by zero, or of the least \<open>int\<close> by \<open>-1\<close>, has no result.
\<close>

definition wrap_int :: "int \<Rightarrow> int" where
  "wrap_int x = (x + 2147483648) mod 4294967296 - 2147483648"

definition int_div :: "int \<Rightarrow> int \<Rightarrow> fault + int" where
  "int_div x y =
     (if y = 0 \<or> (x = - 2147483648 \<and> y = - 1) then Inl DivideError
      else Inr (sgn x * sgn y * (\<bar>x\<bar> div \<bar>y\<bar>)))"

text \<open>The filter \<open>select_all\<close>.\<close>

definition select_all :: "'v \<Rightarrow> bool" where
  "select_all v = True"

text \<open>
  \<open>ForEachWork::AddInitialWork(b, e, fil)\<close>, on the items between the two iterators.
  Its body is the \<open>for\<close> statement alone. The member is declared \<open>bool\<close> and has no
  \<open>return\<close>: after the last item control reaches the closing brace of a function that
  owes a result, on every call, whatever the caller does with the result.
\<close>

fun AddInitialWork_loop :: "'v list \<Rightarrow> ('v \<Rightarrow> bool) \<Rightarrow> 'v ForEachWork \<Rightarrow> 'v ForEachWork" where
  "AddInitialWork_loop [] fil g = g"
| "AddInitialWork_loop (x # xs) fil g =
     AddInitialWork_loop xs fil (if fil x then g\<lparr>global_wl := push (global_wl g) x\<rparr> else g)"

definition AddInitialWork ::
  "'v list \<Rightarrow> ('v \<Rightarrow> bool) \<Rightarrow> 'v ForEachWork \<Rightarrow> fault + bool \<times> 'v ForEachWork" where
  "AddInitialWork xs fil g = (let g = AddInitialWork_loop xs fil g in Inl NoReturn)"

text \<open>
  The iterators \<open>b\<close> and \<open>e\<close> of \<open>FillWork\<close> delimit a sequence of items, kept as
  the list \<open>b_to_e\<close>. The constructor takes the number \<open>a\<close> of active threads and
  stores \<open>dist\<close> and \<open>num\<close>; \<open>dist + a - 1\<close> is evaluated from the left.
\<close>

record 'v FillWork =
  b_to_e :: "'v list"
  num :: int
  dist :: int

definition FillWork_init :: "int \<Rightarrow> 'v list \<Rightarrow> fault + 'v FillWork" where
  "FillWork_init a xs =
     (let dist = wrap_int (int (length xs)) in
      case int_div (wrap_int (wrap_int (dist + a) - 1)) a of
        Inl e \<Rightarrow> Inl e
      | Inr q \<Rightarrow> Inr \<lparr>b_to_e = xs, num = q, dist = dist\<rparr>)"

text \<open>
  \<open>FillWork::operator()\<close> of the worker \<open>myID\<close>. The locals \<open>A\<close> and \<open>B\<close> are the
  bounds of its chunk. \<open>std::advance\<close> moves \<open>b2\<close> and \<open>e2\<close> to the offsets \<open>A\<close>
  and \<open>B\<close>; the loop of \<open>AddInitialWork\<close> steps \<open>b2\<close> forward until it meets
  \<open>e2\<close>. Offsets outside the sequence, or \<open>e2\<close> before \<open>b2\<close>, take the iterators
  outside the container.
\<close>

definition FillWork_bounds :: "'v FillWork \<Rightarrow> int \<Rightarrow> int \<times> int" where
  "FillWork_bounds fw myID =
     (min (wrap_int (num fw * myID)) (dist fw),
      min (wrap_int (num fw * wrap_int (myID + 1))) (dist fw))"

definition FillWork_call ::
  "'v FillWork \<Rightarrow> ('v \<Rightarrow> bool) \<Rightarrow> int \<Rightarrow> 'v ForEachWork \<Rightarrow> fault + 'v ForEachWork" where
  "FillWork_call fw f myID g =
     (let (A, B) = FillWork_bounds fw myID
      in if 0 \<le> A \<and> A \<le> B \<and> B \<le> int (length (b_to_e fw))
         then (case AddInitialWork (map ((!) (b_to_e fw)) [nat A..<nat B]) f g of
                 Inl e \<Rightarrow> Inl e
               | Inr (r, g) \<Rightarrow> Inr g)
         else Inl OutOfBounds)"

subsection \<open>Example operators and states\<close>

text \<open>
  Two operators on numbers. Both push the successor of their item, request a break and
  take eight bytes from the per-iteration allocator; the first then returns, the second
  signals a conflict.
\<close>

definition request_break :: "nat operator" where
  "request_break v c =
     (Returned, c\<lparr>pushBuffer := pushBuffer c @ [v + 1], breakHappened := True,
                  allocated := allocated c + 8\<rparr>)"

definition signal_conflict :: "nat operator" where
  "signal_conflict v c =
     (ThrewInt 1, c\<lparr>pushBuffer := pushBuffer c @ [v + 1], breakHappened := True,
                   allocated := allocated c + 8\<rparr>)"

text \<open>
  The constants of an operator that declares no trait: those defined by the absence of
  a \<open>does_not_need\<close> trait hold, those defined by a \<open>needs\<close> trait do not. And the
  constants of an operator that asks for everything.
\<close>

definition no_traits :: Configurator where
  "no_traits = \<lparr>CollectStats = True, NeedsBreak = False, NeedsPush = True,
                 NeedsContext = True, NeedsPIA = False\<rparr>"

definition all_traits :: Configurator where
  "all_traits = \<lparr>CollectStats = True, NeedsBreak = True, NeedsPush = True,
                  NeedsContext = True, NeedsPIA = True\<rparr>"

definition idle_work :: "nat ForEachWork" where
  "idle_work = \<lparr>global_wl = [3], aborted = [], break_happened = 0, abort_happened = 0\<rparr>"

definition idle_tld :: "nat tldTy" where
  "idle_tld = \<lparr>facing = \<lparr>pushBuffer = [], breakHappened = False, allocated = 0\<rparr>,
                cnx = [], stat = \<lparr>conflicts = 0, iterations = 0\<rparr>\<rparr>"

section \<open>The custom edge cut partitioner (DistributedGraph_CustomEdgeCut.h)\<close>

text \<open>
  Host ids, global node ids and the counts of nodes and edges read from the graph are
  natural numbers: they count what is held in memory and index vectors, and
  \<open>numOwned\<close> adds at most \<open>numHosts\<close> 32-bit counts in 64 bits. Where a sum can
  leave its type the wrap-around is written out: the local node count \<open>numNodes\<close>
  is a \<open>uint32_t\<close>, and local ids are the 32-bit values of the map; \<open>numEdges\<close>
  and \<open>num_total_edges_to_receive\<close> add 64-bit counters that a peer has sent. The
  entries of the vertex-ID map are \<open>int32_t\<close>, read as \<open>uint32_t\<close> by
  \<open>find_hostID\<close>.

  The partial graph \<open>mpiGraph\<close> is a parameter: for a source it gives the
  destinations of the edges from \<open>edgeBegin(src)\<close> up to \<open>edgeEnd(src)\<close>.
\<close>

type_synonym MPIGraph = "nat \<Rightarrow> nat list"

text \<open>
  The four values a host serialises for a peer in phase 1, in the order in which they
  are written and read.
\<close>

record phase1_msg =
  num_nodes_from_host :: nat
  num_edges_from_host :: nat
  outgoing_from_host :: "nat list"
  incoming_from_host :: "bool list"

text \<open>
  The members of \<open>hGraph_customEdgeCut\<close> and of its base class that phase 1 reads or
  writes; \<open>hostID\<close> is \<open>base_hGraph::id\<close>.
\<close>

record hGraph =
  hostID :: nat
  numHosts :: nat
  numGlobalNodes :: nat
  gid2host :: "(nat \<times> nat) list"
  vertexIDMap :: "int list"
  num_total_edges_to_receive :: nat
  numOwned :: nat
  numNodes :: nat
  numEdges :: nat
  localToGlobalVector :: "nat list"
  globalToLocalMap :: "nat \<rightharpoonup> nat"

text \<open>
  The object together with the locals of \<open>assign_edges_phase1\<close> and the vector
  \<open>prefixSumOfEdges\<close> it fills for the constructor. \<open>sent\<close> lists what was handed
  to \<open>sendTagged\<close>, with the destination.

  Modelled from the spec: \<open>galois::DynamicBitSet\<close> (a sized sequence of bits with
  \<open>resize\<close>, \<open>set\<close>, \<open>test\<close>, \<open>size\<close> and \<open>bitwise_or\<close>) is a list of
  booleans, and \<open>galois::GAccumulator\<close> is the number its \<open>reduce\<close> returns; neither
  header is among the sources. The node accumulators are \<open>uint32_t\<close>.
\<close>

record phase1 = hGraph +
  numOutgoingEdges :: "nat list list"
  hasIncomingEdge :: "bool list list"
  num_assigned_edges_perhost :: "nat list"
  num_assigned_nodes_perhost :: "nat list"
  prefixSumOfEdges :: "nat list"
  sent :: "(nat \<times> phase1_msg) list"

definition isLocal :: "'a hGraph_scheme \<Rightarrow> nat \<Rightarrow> fault + bool" where
  "isLocal g gid =
     (if gid < numGlobalNodes g then Inr (globalToLocalMap g gid \<noteq> None)
      else Inl AssertFailed)"

definition isOwned :: "'a hGraph_scheme \<Rightarrow> nat \<Rightarrow> fault + bool" where
  "isOwned g gid =
     (case isLocal g gid of
        Inl e \<Rightarrow> Inl e
      | Inr local \<Rightarrow>
          Inr (local \<and> (case globalToLocalMap g gid of
                           Some lid \<Rightarrow> lid < numOwned g
                         | None \<Rightarrow> False)))"

definition G2L :: "'a hGraph_scheme \<Rightarrow> nat \<Rightarrow> fault + nat" where
  "G2L g gid =
     (case isLocal g gid of
        Inl e \<Rightarrow> Inl e
      | Inr local \<Rightarrow>
          (case globalToLocalMap g gid of
             Some lid \<Rightarrow> Inr lid
           | None \<Rightarrow> Inl AssertFailed))"

definition L2G :: "'a hGraph_scheme \<Rightarrow> nat \<Rightarrow> fault + nat" where
  "L2G g lid =
     (if lid < length (localToGlobalVector g) then Inr (localToGlobalVector g ! lid)
      else Inl OutOfBounds)"

text \<open>
  \<open>find_hostID(offset)\<close>, the overload that reads the vertex-ID map.
\<close>

definition find_hostID_offset :: "'a hGraph_scheme \<Rightarrow> nat \<Rightarrow> fault + nat" where
  "find_hostID_offset g offset =
     (if offset < length (vertexIDMap g)
      then Inr (nat (vertexIDMap g ! offset mod 4294967296))
      else Inl AssertFailed)"

text \<open>
  A loop whose body may fault stops at the first fault. A loop run by
  \<open>galois::do_all\<close> is taken in the order of its range: the iterations of the
  inspection write distinct slots of the counter vectors, add to accumulators and set
  bits, so the state they leave does not depend on the order.
\<close>

fun for_loop :: "('a \<Rightarrow> 's \<Rightarrow> fault + 's) \<Rightarrow> 'a list \<Rightarrow> 's \<Rightarrow> fault + 's" where
  "for_loop body [] s = Inr s"
| "for_loop body (x # xs) s =
     (case body x s of Inl e \<Rightarrow> Inl e | Inr s' \<Rightarrow> for_loop body xs s')"

definition set_incoming :: "nat \<Rightarrow> nat \<Rightarrow> phase1 \<Rightarrow> fault + phase1" where
  "set_incoming h gdst s =
     (if gdst < length (hasIncomingEdge s ! h)
      then Inr (s\<lparr>hasIncomingEdge :=
                   (hasIncomingEdge s)[h := (hasIncomingEdge s ! h)[gdst := True]]\<rparr>)
      else Inl OutOfBounds)"

text \<open>The body of the loop \<open>EdgeInspection\<close>, for one source.\<close>

definition EdgeInspection :: "MPIGraph \<Rightarrow> nat \<Rightarrow> nat \<Rightarrow> phase1 \<Rightarrow> fault + phase1" where
  "EdgeInspection mpiGraph globalOffset src s =
     (let num_edges = length (mpiGraph src) in
      case find_hostID_offset s (src - globalOffset) of
        Inl e \<Rightarrow> Inl e
      | Inr h \<Rightarrow>
          if \<not> h < numHosts s then Inl AssertFailed
          else
            (let j = src - globalOffset;
                 s = s\<lparr>numOutgoingEdges :=
                         (numOutgoingEdges s)[h := (numOutgoingEdges s ! h)[j := 1]]\<rparr>;
                 s = s\<lparr>num_assigned_nodes_perhost :=
                         (num_assigned_nodes_perhost s)
                           [h := (num_assigned_nodes_perhost s ! h + 1) mod 4294967296]\<rparr>;
                 s = s\<lparr>num_assigned_edges_perhost :=
                         (num_assigned_edges_perhost s)
                           [h := num_assigned_edges_perhost s ! h + num_edges]\<rparr>;
                 s = s\<lparr>numOutgoingEdges :=
                         (numOutgoingEdges s)
                           [h := (numOutgoingEdges s ! h)
                                   [j := numOutgoingEdges s ! h ! j + num_edges]]\<rparr>
             in for_loop (set_incoming h) (mpiGraph src) s))"

text \<open>
  The first part of \<open>assign_edges_phase1\<close>: the locals are set up and the inspection
  loop runs over the range \<open>gid2host[id]\<close> of this host. An \<open>id\<close> that is no index
  of \<open>gid2host\<close> or of the vectors with one entry for every host is a read outside a
  vector. For a range that ends before it starts the unsigned difference
  \<open>numNodesAssigned\<close> wraps, and \<open>assign\<close> throws for a vector of that size.
\<close>

definition inspection_pass :: "MPIGraph \<Rightarrow> hGraph \<Rightarrow> fault + phase1" where
  "inspection_pass mpiGraph g =
     (if \<not> hostID g < length (gid2host g) \<or> \<not> hostID g < numHosts g then Inl OutOfBounds
      else if snd (gid2host g ! hostID g) < fst (gid2host g ! hostID g) then Inl Uncaught
      else
        (let first = fst (gid2host g ! hostID g);
             second = snd (gid2host g ! hostID g);
             numNodesAssigned = second - first;
             s = hGraph.extend (g\<lparr>num_total_edges_to_receive := 0\<rparr>)
                   \<lparr>numOutgoingEdges = replicate (numHosts g) (replicate numNodesAssigned 0),
                    hasIncomingEdge = replicate (numHosts g) (replicate (numGlobalNodes g) False),
                    num_assigned_edges_perhost = replicate (numHosts g) 0,
                    num_assigned_nodes_perhost = replicate (numHosts g) 0,
                    prefixSumOfEdges = [],
                    sent = []\<rparr>
         in for_loop (EdgeInspection mpiGraph first) [first..<second] s))"

text \<open>The body of the send loop: one message for every peer.\<close>

definition phase1_send :: "phase1 \<Rightarrow> nat \<Rightarrow> phase1" where
  "phase1_send s x =
     (if x = hostID s then s
      else s\<lparr>sent := sent s @
                 [(x, \<lparr>num_nodes_from_host = num_assigned_nodes_perhost s ! x,
                        num_edges_from_host = num_assigned_edges_perhost s ! x,
                        outgoing_from_host = numOutgoingEdges s ! x,
                        incoming_from_host = hasIncomingEdge s ! x\<rparr>)]\<rparr>)"

text \<open>
  The receive loop. The transport delivers the messages of \<open>inbox\<close>, each with its
  sender, in this order; the loop takes one message for every peer and polls for ever
  when none is left.
\<close>

fun phase1_receive :: "nat list \<Rightarrow> (nat \<times> phase1_msg) list \<Rightarrow> phase1 \<Rightarrow> fault + phase1" where
  "phase1_receive [] inbox s = Inr s"
| "phase1_receive (x # xs) inbox s =
     (if x = hostID s then phase1_receive xs inbox s
      else
        (case inbox of
           [] \<Rightarrow> Inl Blocked
         | (from_host, m) # rest \<Rightarrow>
             if from_host < numHosts s then
               phase1_receive xs rest
                 (s\<lparr>numOutgoingEdges := (numOutgoingEdges s)[from_host := outgoing_from_host m],
                    hasIncomingEdge := (hasIncomingEdge s)[from_host := incoming_from_host m],
                    num_total_edges_to_receive :=
                      (num_total_edges_to_receive s + num_edges_from_host m)
                        mod 18446744073709551616,
                    numOwned := numOwned s + num_nodes_from_host m\<rparr>)
             else Inl OutOfBounds))"

text \<open>The body of the loop that merges the bitsets of the peers into this host's.\<close>

definition bitwise_or :: "nat \<Rightarrow> phase1 \<Rightarrow> fault + phase1" where
  "bitwise_or x s =
     (if x = hostID s then Inr s
      else if length (hasIncomingEdge s ! hostID s) \<noteq> length (hasIncomingEdge s ! x)
      then Inl AssertFailed
      else Inr (s\<lparr>hasIncomingEdge :=
                   (hasIncomingEdge s)
                     [hostID s := map2 (\<or>) (hasIncomingEdge s ! hostID s)
                                            (hasIncomingEdge s ! x)]\<rparr>))"

text \<open>
  The three statements that the two fill passes share:
  \<open>localToGlobalVector.push_back(gid); globalToLocalMap[gid] = numNodes++;
  prefixSumOfEdges.push_back(numEdges)\<close>.
\<close>

definition append_node :: "nat \<Rightarrow> phase1 \<Rightarrow> phase1" where
  "append_node gid s =
     (let s = s\<lparr>localToGlobalVector := localToGlobalVector s @ [gid]\<rparr>;
          s = s\<lparr>globalToLocalMap := (globalToLocalMap s)(gid \<mapsto> numNodes s),
                numNodes := (numNodes s + 1) mod 4294967296\<rparr>
      in s\<lparr>prefixSumOfEdges := prefixSumOfEdges s @ [numEdges s]\<rparr>)"

text \<open>
  The body of the inner loop of "Fill local and global vectors", on the state and the
  running counter \<open>src\<close>, for the counter value \<open>numOutgoingEdges[i][j]\<close>.
\<close>

definition fill_local :: "phase1 \<times> nat \<Rightarrow> nat \<Rightarrow> phase1 \<times> nat" where
  "fill_local st c =
     (let (s, src) = st;
          s = (if 0 < c
               then append_node src
                      (s\<lparr>numEdges := (numEdges s + (c - 1)) mod 18446744073709551616\<rparr>)
               else s)
      in (s, src + 1))"

definition fill_local_vectors :: "phase1 \<Rightarrow> phase1" where
  "fill_local_vectors s =
     fst (foldl (\<lambda>st i. foldl fill_local st (numOutgoingEdges s ! i))
            (s, 0) [0..<numHosts s])"

text \<open>The body of the loop "Fill Ghosts".\<close>

definition fill_ghost :: "nat \<Rightarrow> phase1 \<Rightarrow> fault + phase1" where
  "fill_ghost i s =
     (if i < length (hasIncomingEdge s ! hostID s) then
        (if hasIncomingEdge s ! hostID s ! i then
           (case isOwned s i of
              Inl e \<Rightarrow> Inl e
            | Inr owned \<Rightarrow> Inr (if \<not> owned then append_node i s else s))
         else Inr s)
      else Inl OutOfBounds)"

text \<open>
  \<open>assign_edges_phase1\<close> up to the end of "Fill Ghosts": inspection, the check of
  the edge count, the exchange of phase 1, the merge of the bitsets and the assignment
  of local ids. The exchange of the master lists that follows reads the two id maps
  and does not change them.
\<close>

definition assign_edges_phase1 ::
  "MPIGraph \<Rightarrow> nat \<Rightarrow> (nat \<times> phase1_msg) list \<Rightarrow> hGraph \<Rightarrow> fault + phase1" where
  "assign_edges_phase1 mpiGraph numEdges_distribute inbox g =
     (case inspection_pass mpiGraph g of
        Inl e \<Rightarrow> Inl e
      | Inr s \<Rightarrow>
          if sum_list (num_assigned_edges_perhost s) \<noteq> numEdges_distribute
          then Inl AssertFailed
          else
            (let s = s\<lparr>numOwned := num_assigned_nodes_perhost s ! hostID s\<rparr>;
                 s = foldl phase1_send s [0..<numHosts s]
             in case phase1_receive [0..<numHosts s] inbox s of
                  Inl e \<Rightarrow> Inl e
                | Inr s \<Rightarrow>
                    (case for_loop bitwise_or [0..<numHosts s] s of
                       Inl e \<Rightarrow> Inl e
                     | Inr s \<Rightarrow>
                         (let s = s\<lparr>numNodes := 0, numEdges := 0\<rparr>;
                              s = fill_local_vectors s
                          in if numNodes s \<noteq> numOwned s
                                \<or> length (localToGlobalVector s) \<noteq> numOwned s
                             then Inl AssertFailed
                             else for_loop fill_ghost [0..<numGlobalNodes s] s))))"

subsection \<open>The assignment as the specification words it\<close>

text \<open>
  The masters in the words of the specification: every global id whose received
  outgoing counter is non-zero, in global order, the counters of the hosts laid end to
  end. The ghosts: every global id that has an incoming edge on this host and is not
  among the masters, in global order.
\<close>

definition spec_masters :: "phase1 \<Rightarrow> nat list" where
  "spec_masters s =
     filter (\<lambda>gid. 0 < concat (numOutgoingEdges s) ! gid)
       [0..<length (concat (numOutgoingEdges s))]"

definition spec_ghosts :: "phase1 \<Rightarrow> nat list" where
  "spec_ghosts s =
     filter (\<lambda>gid. hasIncomingEdge s ! hostID s ! gid \<and> gid \<notin> set (spec_masters s))
       [0..<numGlobalNodes s]"

subsection \<open>Invariants of the fill passes\<close>

text \<open>
  What the two id maps and the prefix sums satisfy after every appended node, an object
  that holds no node yet, and the recurrence of the prefix sums over the masters.
\<close>

definition ids_ok :: "phase1 \<Rightarrow> bool" where
  "ids_ok s \<longleftrightarrow>
     distinct (localToGlobalVector s)
     \<and> dom (globalToLocalMap s) = set (localToGlobalVector s)
     \<and> (\<forall>l < length (localToGlobalVector s).
           globalToLocalMap s (localToGlobalVector s ! l) = Some (l mod 4294967296))
     \<and> numNodes s = length (localToGlobalVector s) mod 4294967296
     \<and> length (prefixSumOfEdges s) = length (localToGlobalVector s)"

definition fresh :: "phase1 \<Rightarrow> bool" where
  "fresh s \<longleftrightarrow> numNodes s = 0 \<and> numEdges s = 0 \<and> localToGlobalVector s = []
     \<and> globalToLocalMap s = Map.empty \<and> prefixSumOfEdges s = []"

definition prefix_ok :: "nat list \<Rightarrow> phase1 \<Rightarrow> bool" where
  "prefix_ok cs s \<longleftrightarrow>
     (\<forall>l < length (prefixSumOfEdges s).
        prefixSumOfEdges s ! l =
          ((if l = 0 then 0 else prefixSumOfEdges s ! (l - 1))
             + (cs ! (localToGlobalVector s ! l) - 1)) mod 18446744073709551616)
     \<and> numEdges s = (if prefixSumOfEdges s = [] then 0 else last (prefixSumOfEdges s))"

subsection \<open>An example run\<close>

text \<open>
  The path \<open>0 \<rightarrow> 1 \<rightarrow> 2 \<rightarrow> 3\<close> on two hosts. Host 0 reads the nodes 0 and 1, host 1
  the nodes 2 and 3; the vertex-ID map \<open>[1, 0, 0, 1]\<close> gives the nodes 1 and 2 to
  host 0. The objects of the two hosts before the call, the two messages of phase 1,
  and the state of host 0 after the inspection and at the end.
\<close>

definition path4 :: MPIGraph where
  "path4 src = (if src < 3 then [src + 1] else [])"

definition host0 :: hGraph where
  "host0 = \<lparr>hostID = 0, numHosts = 2, numGlobalNodes = 4, gid2host = [(0, 2), (2, 4)],
            vertexIDMap = [1, 0], num_total_edges_to_receive = 0, numOwned = 0, numNodes = 0,
            numEdges = 0, localToGlobalVector = [], globalToLocalMap = Map.empty\<rparr>"

definition host1 :: hGraph where
  "host1 = \<lparr>hostID = 1, numHosts = 2, numGlobalNodes = 4, gid2host = [(0, 2), (2, 4)],
            vertexIDMap = [0, 1], num_total_edges_to_receive = 0, numOwned = 0, numNodes = 0,
            numEdges = 0, localToGlobalVector = [], globalToLocalMap = Map.empty\<rparr>"

definition msg_1_to_0 :: phase1_msg where
  "msg_1_to_0 = \<lparr>num_nodes_from_host = 1, num_edges_from_host = 1,
                  outgoing_from_host = [2, 0],
                  incoming_from_host = [False, False, False, True]\<rparr>"

definition msg_wrap :: phase1_msg where
  "msg_wrap = \<lparr>num_nodes_from_host = 2, num_edges_from_host = 1,
                outgoing_from_host = [18446744073709551615, 3],
                incoming_from_host = [False, False, False, True]\<rparr>"

definition msg_0_to_1 :: phase1_msg where
  "msg_0_to_1 = \<lparr>num_nodes_from_host = 1, num_edges_from_host = 1,
                  outgoing_from_host = [2, 0],
                  incoming_from_host = [False, True, False, False]\<rparr>"


definition host0_final :: phase1 where
  "host0_final =
     \<lparr>hostID = 0, numHosts = 2, numGlobalNodes = 4, gid2host = [(0, 2), (2, 4)],
      vertexIDMap = [1, 0], num_total_edges_to_receive = 1, numOwned = 2, numNodes = 3,
      numEdges = 2, localToGlobalVector = [1, 2, 3],
      globalToLocalMap = [1 \<mapsto> 0, 2 \<mapsto> 1, 3 \<mapsto> 2],
      numOutgoingEdges = [ [0, 2], [2, 0] ],
      hasIncomingEdge = [ [False, False, True, True], [False, False, False, True] ],
      num_assigned_edges_perhost = [1, 1], num_assigned_nodes_perhost = [1, 1],
      prefixSumOfEdges = [1, 2, 2], sent = [(1, msg_0_to_1)]\<rparr>"

chapter \<open>Properties\<close>

section \<open>LazyArray\<close>

lemma LazyArray_at_throws_iff: "LazyArray_at arr n = Inl OutOfRange \<longleftrightarrow> Size arr \<le> n"
  by (simp add: LazyArray_at_def)

text \<open>
  C10. \<open>at(n)\<close> is to throw \<open>std::out_of_range\<close> exactly when \<open>n \<ge> Size\<close> and to
  return a reference to element \<open>n\<close> otherwise. On a four-slot array, \<open>at(0)\<close> does
  not throw, but what it returns is the pointer that \<open>get(0)\<close> yields, where
  \<open>operator[]\<close> returns the slot.
\<close>

theorem LazyArray_at_returns_pointer:
  "LazyArray_at \<lparr>Size = 4, datac = [10, 20, 30, 40 :: int]\<rparr> 0 = Inr (SlotPointer 0)
   \<and> subscript \<lparr>Size = 4, datac = [10, 20, 30, 40 :: int]\<rparr> 0 = SlotLvalue 0
   \<and> LazyArray_at \<lparr>Size = 4, datac = [10, 20, 30, 40 :: int]\<rparr> 0
       \<noteq> Inr (subscript \<lparr>Size = 4, datac = [10, 20, 30, 40 :: int]\<rparr> 0)"
  by (simp add: LazyArray_at_def subscript_def get_def)

section \<open>Mirror owner lookup\<close>

lemma lower_bound_loop_all_less:
  "first + len \<le> length vec \<Longrightarrow> (\<forall>i. first \<le> i \<and> i < first + len \<longrightarrow> vec ! i < val)
   \<Longrightarrow> lower_bound_loop vec val first len = first + len"
proof (induction vec val first len rule: lower_bound_loop.induct)
  case (1 vec val first len)
  show ?case
  proof (cases "0 < len")
    case False
    then show ?thesis by (simp add: lower_bound_loop.simps)
  next
    case True
    define half where "half = len div 2"
    have lt: "vec ! (first + half) < val"
      using 1(4) True by (simp add: half_def)
    have hl: "half < len"
      using True by (simp add: half_def)
    have "lower_bound_loop vec val (first + half + 1) (len - half - 1)
            = first + half + 1 + (len - half - 1)"
      using 1(1) [of half "first + half"] True lt 1(3) 1(4) hl
      by (simp add: half_def)
    then have "lower_bound_loop vec val (first + half + 1) (len - half - 1) = first + len"
      using hl by simp
    then show ?thesis
      using True lt
      by (subst lower_bound_loop.simps) (simp add: half_def Let_def)
  qed
qed

lemma find_hostID_past_the_end:
  "\<forall>x \<in> set vec. x < gid \<Longrightarrow> find_hostID vec gid p = Inl OutOfBounds"
proof -
  assume a: "\<forall>x \<in> set vec. x < gid"
  have "lower_bound vec gid = length vec"
    unfolding lower_bound_def
    using lower_bound_loop_all_less [of 0 "length vec" vec gid] a by simp
  then show ?thesis by (simp add: find_hostID_def)
qed

text \<open>
  C7. On a sorted master list, the lookup is to return the peer when \<open>gid\<close> occurs and
  the \<open>uint32\<close> maximum otherwise, without reading outside the list. With the empty
  master list of a peer that owns nothing, and with a \<open>gid\<close> above every master of the
  list \<open>[1, 2]\<close>, the bisection returns \<open>vec.end()\<close> and the lookup reads there.
\<close>

theorem find_hostID_reads_end:
  "find_hostID [] 7 1 = Inl OutOfBounds \<and> find_hostID [1, 2] 5 1 = Inl OutOfBounds"
  by (simp add: find_hostID_def lower_bound_def lower_bound_loop.simps)

section \<open>The for-each executor\<close>

lemma foldl_push: "foldl push wl xs = wl @ xs"
  by (induction xs arbitrary: wl) (simp_all add: push_def)

lemmas executor_defs =
  doProcess_def finishIteration_def Let_def foldl_push push_def
  inc_conflicts_def inc_iterations_def resetBreakHappened_def clearPushBuffer_def
  resetAlloc_def

text \<open>
  C5. Whenever the operator raises the conflict signal, the iteration is rolled back:
  nothing of its push buffer reaches the global worklist and the buffer is empty
  afterwards, its break request is dropped and the global break flag keeps its value,
  the conflicts counter goes up by exactly one, and the item is pushed on the aborted
  list with \<open>abort_happened\<close> set. The context sees \<open>start_iteration\<close>, then
  \<open>cancel_iteration\<close>, and no \<open>commit_iteration\<close>. This holds for every setting
  of the traits.
\<close>

theorem doProcess_conflict:
  assumes "fst (f val (facing tld)) = ThrewInt a"
  shows "\<exists>w' tld'. doProcess cfg f val (w, tld) = Inr (w', tld')
          \<and> global_wl w' = global_wl w
          \<and> pushBuffer (facing tld') = []
          \<and> break_happened w' = break_happened w
          \<and> \<not> breakHappened (facing tld')
          \<and> conflicts (stat tld') = conflicts (stat tld) + 1
          \<and> aborted w' = aborted w @ [val]
          \<and> abort_happened w' = 1
          \<and> cnx tld' = cnx tld @ [start_iteration, clearConflictLock, cancel_iteration]"
  using assms
  by (cases "f val (facing tld)")
     (simp add: doProcess_def finishIteration_def Let_def foldl_push push_def
        inc_conflicts_def inc_iterations_def resetBreakHappened_def clearPushBuffer_def
        resetAlloc_def)

theorem doProcess_conflict_witness:
  "fst (signal_conflict 7 (facing idle_tld)) = ThrewInt 1
   \<and> (\<exists>w' tld'. doProcess all_traits signal_conflict 7 (idle_work, idle_tld) = Inr (w', tld')
          \<and> global_wl w' = [3]
          \<and> pushBuffer (facing tld') = []
          \<and> break_happened w' = 0
          \<and> \<not> breakHappened (facing tld')
          \<and> conflicts (stat tld') = 1
          \<and> aborted w' = [7]
          \<and> abort_happened w' = 1
          \<and> cnx tld' = [start_iteration, clearConflictLock, cancel_iteration])"
proof -
  have h: "fst (signal_conflict 7 (facing idle_tld)) = ThrewInt 1"
    by (simp add: signal_conflict_def)
  show ?thesis
    using h doProcess_conflict [of signal_conflict 7 idle_tld 1 all_traits idle_work]
    by (simp add: idle_work_def idle_tld_def)
qed

text \<open>
  C6, as the code has it. Whenever the operator returns normally, the iteration commits
  exactly once: \<open>commit_iteration\<close> follows \<open>start_iteration\<close> and
  \<open>cancel_iteration\<close> is not called, nothing is pushed on the aborted list and the
  conflicts counter keeps its value. Each of the other three effects is gated by a
  trait: the push buffer is appended to the global worklist and cleared when
  \<open>NeedsPush\<close> holds, the per-iteration allocator is reset when \<open>NeedsPIA\<close>
  holds, and a set break signal raises the global break flag when \<open>NeedsBreak\<close>
  holds; without the trait the buffer, the allocator and the global flag are left as
  they are.
\<close>

theorem doProcess_commit:
  assumes "f val (facing tld) = (Returned, fc)"
  shows "\<exists>w' tld'. doProcess cfg f val (w, tld) = Inr (w', tld')
          \<and> global_wl w' = (if NeedsPush cfg then global_wl w @ pushBuffer fc else global_wl w)
          \<and> pushBuffer (facing tld') = (if NeedsPush cfg then [] else pushBuffer fc)
          \<and> allocated (facing tld') = (if NeedsPIA cfg then 0 else allocated fc)
          \<and> break_happened w' =
                (if NeedsBreak cfg \<and> breakHappened fc then 1 else break_happened w)
          \<and> cnx tld' = cnx tld @ [start_iteration, commit_iteration]
          \<and> aborted w' = aborted w
          \<and> abort_happened w' = abort_happened w
          \<and> conflicts (stat tld') = conflicts (stat tld)"
  using assms by (simp add: executor_defs)

theorem doProcess_commit_witness:
  "request_break 7 (facing idle_tld)
     = (Returned, \<lparr>pushBuffer = [8], breakHappened = True, allocated = 8\<rparr>)
   \<and> (\<exists>w' tld'. doProcess all_traits request_break 7 (idle_work, idle_tld) = Inr (w', tld')
          \<and> global_wl w' = [3, 8]
          \<and> pushBuffer (facing tld') = []
          \<and> allocated (facing tld') = 0
          \<and> break_happened w' = 1
          \<and> cnx tld' = [start_iteration, commit_iteration]
          \<and> aborted w' = []
          \<and> abort_happened w' = 0
          \<and> conflicts (stat tld') = 0)"
proof -
  have h: "request_break 7 (facing idle_tld)
             = (Returned, \<lparr>pushBuffer = [8], breakHappened = True, allocated = 8\<rparr>)"
    by (simp add: request_break_def idle_tld_def)
  show ?thesis
    using h doProcess_commit [of request_break 7 idle_tld _ all_traits idle_work]
    by (simp add: idle_work_def idle_tld_def all_traits_def)
qed

text \<open>
  C6 as stated fails for an operator without the optional traits. The operator returns
  normally, having pushed one item, requested a break and used the allocator. The
  iteration commits and the pushed item reaches the global worklist, but the global
  break flag stays 0 and the allocator is not reset.
\<close>

theorem commit_gated_by_traits_counterexample:
  "fst (request_break 7 (facing idle_tld)) = Returned
   \<and> breakHappened (snd (request_break 7 (facing idle_tld)))
   \<and> \<not> NeedsBreak no_traits \<and> \<not> NeedsPIA no_traits
   \<and> doProcess no_traits request_break 7 (idle_work, idle_tld) =
     Inr (\<lparr>global_wl = [3, 8], aborted = [], break_happened = 0, abort_happened = 0\<rparr>,
          \<lparr>facing = \<lparr>pushBuffer = [], breakHappened = True, allocated = 8\<rparr>,
           cnx = [start_iteration, commit_iteration],
           stat = \<lparr>conflicts = 0, iterations = 1\<rparr>\<rparr>)"
  by (simp add: executor_defs request_break_def no_traits_def idle_work_def idle_tld_def)

section \<open>The initial fill\<close>

lemma wrap_int_id: "- 2147483648 \<le> x \<Longrightarrow> x < 2147483648 \<Longrightarrow> wrap_int x = x"
  by (simp add: wrap_int_def)

lemma wrap_int_pred: "wrap_int (wrap_int x - 1) = wrap_int (x - 1)"
proof -
  have "(((x + 2147483648) mod 4294967296 - 2147483648) - 1 + 2147483648) mod 4294967296
          = ((x + 2147483648) mod 4294967296 - 1) mod (4294967296::int)"
    by simp
  also have "\<dots> = (x + 2147483648 - 1) mod 4294967296"
    by (rule mod_diff_left_eq)
  finally show ?thesis
    by (simp add: wrap_int_def)
qed

lemma int_div_nonneg: "0 \<le> x \<Longrightarrow> 0 < y \<Longrightarrow> int_div x y = Inr (x div y)"
  by (cases "x = 0") (simp_all add: int_div_def)

lemma int_div_by_zero: "int_div x 0 = Inl DivideError"
  by (simp add: int_div_def)

lemma AddInitialWork_loop_filter:
  "AddInitialWork_loop xs fil g = g\<lparr>global_wl := global_wl g @ filter fil xs\<rparr>"
  by (induction xs arbitrary: g) (simp_all add: push_def)

lemma AddInitialWork_flows_off_end: "AddInitialWork xs fil g = Inl NoReturn"
  by (simp add: AddInitialWork_def)

text \<open>
  No call of \<open>AddInitialWork\<close> returns a value, so no call of
  \<open>FillWork::operator()\<close> returns normally.
\<close>

lemma FillWork_call_never_returns: "FillWork_call fw fil myID g \<noteq> Inr g'"
  by (simp add: FillWork_call_def AddInitialWork_flows_off_end split: prod.splits)

lemma FillWork_init_value:
  assumes "0 < a" "int (length xs) + a - 1 < 2147483648"
  shows "FillWork_init a xs =
           Inr \<lparr>b_to_e = xs, num = (int (length xs) + a - 1) div a, dist = int (length xs)\<rparr>"
proof -
  have d: "wrap_int (int (length xs)) = int (length xs)"
    using assms by (intro wrap_int_id) simp_all
  have "wrap_int (wrap_int (int (length xs) + a) - 1) = wrap_int (int (length xs) + a - 1)"
    by (rule wrap_int_pred)
  also have "\<dots> = int (length xs) + a - 1"
    using assms by (intro wrap_int_id) simp_all
  finally have t: "wrap_int (wrap_int (int (length xs) + a) - 1) = int (length xs) + a - 1" .
  have "int_div (int (length xs) + a - 1) a = Inr ((int (length xs) + a - 1) div a)"
    using assms by (intro int_div_nonneg) simp_all
  then show ?thesis
    by (simp add: FillWork_init_def Let_def d t)
qed

text \<open>Without an active thread the constructor divides by zero.\<close>

lemma FillWork_init_no_threads: "FillWork_init 0 xs = Inl DivideError"
  by (simp add: FillWork_init_def Let_def int_div_by_zero)

lemma round_up_bounds:
  assumes "0 < (a::int)"
  shows "d \<le> ((d + a - 1) div a) * a" and "((d + a - 1) div a - 1) * a < d"
proof -
  define q where "q = (d + a - 1) div a"
  define r where "r = (d + a - 1) mod a"
  have e: "d + a - 1 = q * a + r"
    by (simp add: q_def r_def)
  have r: "0 \<le> r" "r < a"
    using assms by (simp_all add: r_def)
  show "d \<le> ((d + a - 1) div a) * a"
    using e r unfolding q_def [symmetric] by linarith
  have "(q - 1) * a = q * a - a"
    by (simp add: algebra_simps)
  then show "((d + a - 1) div a - 1) * a < d"
    using e r unfolding q_def [symmetric] by linarith
qed

lemma round_up_ceiling:
  assumes "0 < (a::int)"
  shows "(d + a - 1) div a = \<lceil>real_of_int d / real_of_int a\<rceil>"
proof -
  define q where "q = (d + a - 1) div a"
  have 1: "d \<le> q * a" and 2: "(q - 1) * a < d"
    using round_up_bounds [OF assms, of d] by (simp_all add: q_def)
  have "real_of_int d \<le> real_of_int (q * a)"
    using 1 by (simp only: of_int_le_iff)
  then have "real_of_int d / real_of_int a \<le> real_of_int q"
    using assms by (simp add: pos_divide_le_eq)
  moreover have "real_of_int ((q - 1) * a) < real_of_int d"
    using 2 by (simp only: of_int_less_iff)
  then have "real_of_int q - 1 < real_of_int d / real_of_int a"
    using assms by (simp add: pos_less_divide_eq)
  ultimately have "\<lceil>real_of_int d / real_of_int a\<rceil> = q"
    by (intro ceiling_unique) simp_all
  then show ?thesis by (simp add: q_def)
qed

lemma chunk_bounds:
  assumes a: "0 < (a::int)" and d: "0 \<le> d" and n: "n = (d + a - 1) div a"
  shows "0 \<le> n" and "d \<le> n * a"
proof -
  show "0 \<le> n"
    using a d by (simp add: n pos_imp_zdiv_nonneg_iff)
  show "d \<le> n * a"
    using round_up_bounds(1) [OF a, of d] by (simp add: n)
qed

lemma chunks_cover:
  assumes a: "0 < (a::int)" and d: "0 \<le> d" and n: "n = (d + a - 1) div a"
  shows "(\<Union>i \<in> {0..<a}. {min (n * i) d..<min (n * (i + 1)) d}) = {0..<d}"
proof (intro set_eqI iffI)
  fix x
  assume "x \<in> (\<Union>i \<in> {0..<a}. {min (n * i) d..<min (n * (i + 1)) d})"
  then obtain i where i: "0 \<le> i" "i < a" "min (n * i) d \<le> x" "x < min (n * (i + 1)) d"
    by auto
  have "0 \<le> n * i"
    using chunk_bounds(1) [OF a d n] i(1) by simp
  then show "x \<in> {0..<d}"
    using i d by auto
next
  fix x
  assume "x \<in> {0..<d}"
  then have x: "0 \<le> x" "x < d" by auto
  have nn: "0 \<le> n" and dn: "d \<le> n * a"
    using chunk_bounds [OF a d n] by simp_all
  have npos: "0 < n"
  proof (rule ccontr)
    assume "\<not> 0 < n"
    then have "n = 0" using nn by simp
    then show False using dn x by simp
  qed
  define i where "i = x div n"
  have i0: "0 \<le> i"
    using x npos by (simp add: i_def pos_imp_zdiv_nonneg_iff)
  have e: "x = n * i + x mod n"
    by (simp add: i_def)
  have m: "0 \<le> x mod n" "x mod n < n"
    using npos by simp_all
  have lo: "n * i \<le> x"
    using e m by linarith
  have "n * (i + 1) = n * i + n"
    by (simp add: algebra_simps)
  then have hi: "x < n * (i + 1)"
    using e m by linarith
  have ia: "i < a"
  proof (rule ccontr)
    assume "\<not> i < a"
    then have "a \<le> i" by simp
    then have "n * a \<le> n * i" using nn by (simp add: mult_left_mono)
    then show False using lo dn x by simp
  qed
  have "x \<in> {min (n * i) d..<min (n * (i + 1)) d}"
    using lo hi x by simp
  then show "x \<in> (\<Union>i \<in> {0..<a}. {min (n * i) d..<min (n * (i + 1)) d})"
    using i0 ia by auto
qed

lemma chunks_disjoint:
  assumes nn: "0 \<le> (n::int)" and ij: "i < j"
  shows "{min (n * i) d..<min (n * (i + 1)) d} \<inter> {min (n * j) d..<min (n * (j + 1)) d} = {}"
proof -
  have "n * (i + 1) \<le> n * j"
    using nn ij by (intro mult_left_mono) simp_all
  then have "min (n * (i + 1)) d \<le> min (n * j) d"
    by simp
  then show ?thesis by auto
qed

lemma FillWork_bounds_chunk:
  fixes xs :: "'v list"
  assumes a: "0 < a" "a < 2147483648" and fits: "int (length xs) + a - 1 < 2147483648"
    and i: "0 \<le> i" "i < a"
    and n: "n = (int (length xs) + a - 1) div a"
  shows "FillWork_bounds \<lparr>b_to_e = xs, num = n, dist = int (length xs)\<rparr> i =
           (min (n * i) (int (length xs)), min (n * (i + 1)) (int (length xs)))"
    and "0 \<le> min (n * i) (int (length xs))"
    and "min (n * i) (int (length xs)) \<le> min (n * (i + 1)) (int (length xs))"
    and "min (n * (i + 1)) (int (length xs)) \<le> int (length xs)"
proof -
  have nn: "0 \<le> n" and dn: "int (length xs) \<le> n * a"
    using chunk_bounds [OF a(1) _ n] by simp_all
  have na: "n * a \<le> int (length xs) + a - 1"
  proof -
    have "int (length xs) + a - 1 = n * a + (int (length xs) + a - 1) mod a"
      by (simp add: n)
    moreover have "0 \<le> (int (length xs) + a - 1) mod a"
      using a(1) by simp
    ultimately show ?thesis by linarith
  qed
  have i1: "n * i \<le> n * (i + 1)" "n * (i + 1) \<le> n * a" "0 \<le> n * i"
    using nn i by (simp_all add: mult_left_mono)
  have w1: "wrap_int (i + 1) = i + 1"
    using i a by (intro wrap_int_id) simp_all
  have w2: "wrap_int (n * i) = n * i"
    using i1 na fits by (intro wrap_int_id) simp_all
  have w3: "wrap_int (n * (i + 1)) = n * (i + 1)"
    using i1 na fits by (intro wrap_int_id) simp_all
  show "FillWork_bounds \<lparr>b_to_e = xs, num = n, dist = int (length xs)\<rparr> i =
           (min (n * i) (int (length xs)), min (n * (i + 1)) (int (length xs)))"
    by (simp add: FillWork_bounds_def w1 w2 w3)
  show "0 \<le> min (n * i) (int (length xs))"
    "min (n * i) (int (length xs)) \<le> min (n * (i + 1)) (int (length xs))"
    "min (n * (i + 1)) (int (length xs)) \<le> int (length xs)"
    using i1 by simp_all
qed

text \<open>
  The arithmetic of the chunks and the \<open>for\<close> statement, on the ranges on which the
  \<open>int\<close> arithmetic is exact. With \<open>a\<close> active threads, \<open>0 < a\<close>, and
  a range of \<open>d\<close> items such that \<open>d + a - 1\<close> does not exceed the largest \<open>int\<close>:
  the chunk size is \<open>num = \<lceil>d / a\<rceil>\<close>; the worker \<open>i\<close>, \<open>0 \<le> i < a\<close>, has the
  bounds \<open>min (num * i) d\<close> and \<open>min (num * (i + 1)) d\<close>, inside the range; the
  \<open>for\<close> statement appends the items between them that the filter accepts, in the
  order of the range; and these index ranges are pairwise disjoint and cover
  \<open>[0, d)\<close>.
\<close>

lemma FillWork_ranges:
  fixes xs :: "'v list"
  assumes "0 < a" and "a < 2147483648" and "int (length xs) + a - 1 < 2147483648"
  shows "let d = int (length xs);
             n = \<lceil>real_of_int d / real_of_int a\<rceil>;
             fw = \<lparr>b_to_e = xs, num = n, dist = d\<rparr>;
             A = (\<lambda>i. min (n * i) d);
             B = (\<lambda>i. min (n * (i + 1)) d)
         in FillWork_init a xs = Inr fw
            \<and> (\<forall>i. 0 \<le> i \<and> i < a \<longrightarrow>
                  FillWork_bounds fw i = (A i, B i) \<and> 0 \<le> A i \<and> A i \<le> B i \<and> B i \<le> d)
            \<and> (\<forall>i fil g. 0 \<le> i \<and> i < a \<longrightarrow>
                  AddInitialWork_loop (map ((!) xs) [nat (A i)..<nat (B i)]) fil g =
                    g\<lparr>global_wl := global_wl g @
                      filter fil (map ((!) xs) [nat (A i)..<nat (B i)])\<rparr>)
            \<and> (\<Union>i \<in> {0..<a}. {A i..<B i}) = {0..<d}
            \<and> (\<forall>i j. 0 \<le> i \<and> i < a \<and> 0 \<le> j \<and> j < a \<and> i \<noteq> j \<longrightarrow>
                  {A i..<B i} \<inter> {A j..<B j} = {})"
proof -
  define d where "d = int (length xs)"
  define n where "n = (d + a - 1) div a"
  have c: "\<lceil>real_of_int d / real_of_int a\<rceil> = n"
    using round_up_ceiling [OF assms(1), of d] by (simp add: n_def)
  have d0: "0 \<le> d" by (simp add: d_def)
  have nn: "0 \<le> n"
    using chunk_bounds(1) [OF assms(1) d0 n_def] .
  have 1: "FillWork_init a xs = Inr \<lparr>b_to_e = xs, num = n, dist = d\<rparr>"
    using FillWork_init_value [OF assms(1) assms(3)] by (simp add: d_def n_def)
  have 2: "\<forall>i. 0 \<le> i \<and> i < a \<longrightarrow>
             FillWork_bounds \<lparr>b_to_e = xs, num = n, dist = d\<rparr> i
               = (min (n * i) d, min (n * (i + 1)) d)
             \<and> 0 \<le> min (n * i) d \<and> min (n * i) d \<le> min (n * (i + 1)) d
             \<and> min (n * (i + 1)) d \<le> d"
  proof (intro allI impI)
    fix i assume i: "0 \<le> i \<and> i < a"
    have nd: "n = (int (length xs) + a - 1) div a"
      by (simp add: n_def d_def)
    show "FillWork_bounds \<lparr>b_to_e = xs, num = n, dist = d\<rparr> i
               = (min (n * i) d, min (n * (i + 1)) d)
             \<and> 0 \<le> min (n * i) d \<and> min (n * i) d \<le> min (n * (i + 1)) d
             \<and> min (n * (i + 1)) d \<le> d"
      unfolding d_def
      using FillWork_bounds_chunk [OF assms(1) assms(2) assms(3) _ _ nd, of i] i
      by blast
  qed
  have 3: "\<forall>i fil g. 0 \<le> i \<and> i < a \<longrightarrow>
             AddInitialWork_loop (map ((!) xs) [nat (min (n * i) d)..<nat (min (n * (i + 1)) d)])
                 fil g =
               g\<lparr>global_wl := global_wl g @
                 filter fil (map ((!) xs) [nat (min (n * i) d)..<nat (min (n * (i + 1)) d)])\<rparr>"
    by (simp add: AddInitialWork_loop_filter)
  have 4: "(\<Union>i \<in> {0..<a}. {min (n * i) d..<min (n * (i + 1)) d}) = {0..<d}"
    using chunks_cover [OF assms(1) d0 n_def] .
  have 5: "\<forall>i j. 0 \<le> i \<and> i < a \<and> 0 \<le> j \<and> j < a \<and> i \<noteq> j \<longrightarrow>
             {min (n * i) d..<min (n * (i + 1)) d} \<inter> {min (n * j) d..<min (n * (j + 1)) d} = {}"
  proof (intro allI impI)
    fix i j :: int
    assume h: "0 \<le> i \<and> i < a \<and> 0 \<le> j \<and> j < a \<and> i \<noteq> j"
    then consider "i < j" | "j < i" by linarith
    then show "{min (n * i) d..<min (n * (i + 1)) d} \<inter> {min (n * j) d..<min (n * (j + 1)) d} = {}"
    proof cases
      case 1
      then show ?thesis by (rule chunks_disjoint [OF nn])
    next
      case 2
      then show ?thesis using chunks_disjoint [OF nn 2, of d] by (simp add: Int_commute)
    qed
  qed
  show ?thesis
    unfolding Let_def d_def [symmetric] c
    using 1 2 3 4 5 by (intro conjI)
qed

text \<open>
  Where the \<open>int\<close> arithmetic overflows the chunk size is not the rounded-up
  quotient. With two threads and a range of \<open>2147483647\<close> items, the largest an
  \<open>int\<close> can count, \<open>dist + a - 1\<close> leaves the range of \<open>int\<close>: the stored chunk
  size is negative, not \<open>\<lceil>dist / a\<rceil> = 1073741824\<close>, and the end iterator of worker 0
  is moved before the beginning of the range.
\<close>

lemma FillWork_round_up_wraps:
  "FillWork_init 2 (replicate 2147483647 (0::nat)) =
     Inr \<lparr>b_to_e = replicate 2147483647 0, num = - 1073741824, dist = 2147483647\<rparr>
   \<and> \<lceil>real_of_int (int (length (replicate 2147483647 (0::nat)))) / real_of_int 2\<rceil> = 1073741824
   \<and> FillWork_call \<lparr>b_to_e = replicate 2147483647 (0::nat), num = - 1073741824,
                     dist = 2147483647\<rparr> select_all 0 idle_work
        = Inl OutOfBounds"
  by (simp add: FillWork_init_def FillWork_call_def FillWork_bounds_def Let_def wrap_int_def
        int_div_def)

text \<open>
  C9 does not hold of the code: no worker pushes its chunk and returns. With two
  active threads and the range \<open>10, 20, 30\<close> the constructor stores the chunk size 2
  and worker 0 has the bounds 0 and 2, as the claim says; the \<open>for\<close> statement of
  \<open>AddInitialWork\<close> pushes the items 10 and 20 that \<open>select_all\<close> accepts; then
  \<open>AddInitialWork\<close>, declared \<open>bool\<close>, ends without a \<open>return\<close>, and the call of
  the worker has no defined outcome.
\<close>

theorem AddInitialWork_no_return:
  "FillWork_init 2 [10, 20, 30 :: nat] = Inr \<lparr>b_to_e = [10, 20, 30], num = 2, dist = 3\<rparr>
   \<and> FillWork_bounds \<lparr>b_to_e = [10, 20, 30 :: nat], num = 2, dist = 3\<rparr> 0 = (0, 2)
   \<and> AddInitialWork_loop [10, 20] select_all idle_work = idle_work\<lparr>global_wl := [3, 10, 20]\<rparr>
   \<and> AddInitialWork [10, 20] select_all idle_work = Inl NoReturn
   \<and> FillWork_call \<lparr>b_to_e = [10, 20, 30], num = 2, dist = 3\<rparr> select_all 0 idle_work
        = Inl NoReturn"
proof -
  have u: "[0..<2] = [0, 1]"
    by (simp add: upt_rec)
  show ?thesis
    by (simp add: FillWork_init_def FillWork_call_def FillWork_bounds_def AddInitialWork_def
          Let_def wrap_int_def int_div_def select_all_def idle_work_def push_def u)
qed

section \<open>The partitioner\<close>

subsection \<open>Evaluation of the example run\<close>

lemmas part_defs = assign_edges_phase1_def inspection_pass_def EdgeInspection_def find_hostID_offset_def
  set_incoming_def phase1_send_def bitwise_or_def fill_local_vectors_def fill_local_def
  append_node_def fill_ghost_def isOwned_def isLocal_def hGraph.extend_def Let_def

lemma upts: "[0..<2] = [0, 1]" "[2..<4] = [2, 3]" "[0..<4] = [0, 1, 2, 3]"
  by (simp_all add: upt_rec)

lemma reps: "replicate 2 x = [x, x]" "replicate 4 x = [x, x, x, x]"
  by (simp_all add: numeral_2_eq_2 numeral_Bit0)

subsection \<open>Edge inspection\<close>

lemma for_loop_append:
  "for_loop body (xs @ ys) s =
     (case for_loop body xs s of Inl e \<Rightarrow> Inl e | Inr s' \<Rightarrow> for_loop body ys s')"
  by (induction xs arbitrary: s) (simp_all split: sum.splits)

lemma set_incoming_loop_form:
  "for_loop (set_incoming h) ds s = Inr s' \<Longrightarrow> \<exists>X. s' = s\<lparr>hasIncomingEdge := X\<rparr>"
proof (induction ds arbitrary: s)
  case Nil
  then have "s' = s\<lparr>hasIncomingEdge := hasIncomingEdge s\<rparr>" by simp
  then show ?case by blast
next
  case (Cons d ds)
  from Cons.prems obtain s1 where 1: "set_incoming h d s = Inr s1"
    and 2: "for_loop (set_incoming h) ds s1 = Inr s'"
    by (auto split: sum.splits)
  from 1 obtain Y where Y: "s1 = s\<lparr>hasIncomingEdge := Y\<rparr>"
    by (auto simp: set_incoming_def split: if_splits)
  from Cons.IH [OF 2] obtain X where "s' = s1\<lparr>hasIncomingEdge := X\<rparr>" by blast
  then have "s' = s\<lparr>hasIncomingEdge := X\<rparr>" by (simp add: Y)
  then show ?case by blast
qed

lemma EdgeInspection_form:
  assumes "EdgeInspection mpiGraph lo src s = Inr s'"
  shows "\<exists>h X. find_hostID_offset s (src - lo) = Inr h \<and> h < numHosts s
           \<and> s' = s\<lparr>numOutgoingEdges :=
                      (numOutgoingEdges s)
                        [h := (numOutgoingEdges s ! h)
                                [src - lo := 1 + length (mpiGraph src)]],
                    hasIncomingEdge := X,
                    num_assigned_edges_perhost :=
                      (num_assigned_edges_perhost s)
                        [h := num_assigned_edges_perhost s ! h + length (mpiGraph src)],
                    num_assigned_nodes_perhost :=
                      (num_assigned_nodes_perhost s)
                        [h := (num_assigned_nodes_perhost s ! h + 1) mod 4294967296]\<rparr>"
proof -
  from assms obtain h where h: "find_hostID_offset s (src - lo) = Inr h"
    by (auto simp: EdgeInspection_def Let_def split: sum.splits)
  from assms h have hn: "h < numHosts s"
    by (auto simp: EdgeInspection_def Let_def split: if_splits)
  define j where "j = src - lo"
  define s1 where "s1 = s\<lparr>num_assigned_nodes_perhost :=
                      (num_assigned_nodes_perhost s)
                        [h := (num_assigned_nodes_perhost s ! h + 1) mod 4294967296],
                    num_assigned_edges_perhost :=
                      (num_assigned_edges_perhost s)
                        [h := num_assigned_edges_perhost s ! h + length (mpiGraph src)],
                    numOutgoingEdges :=
                      (numOutgoingEdges s)
                        [h := (numOutgoingEdges s ! h)[j := 1 + length (mpiGraph src)]]\<rparr>"
  have row: "((numOutgoingEdges s)[h := (numOutgoingEdges s ! h)[j := 1]])
               [h := ((numOutgoingEdges s)[h := (numOutgoingEdges s ! h)[j := 1]] ! h)
                       [j := (numOutgoingEdges s)[h := (numOutgoingEdges s ! h)[j := 1]] ! h ! j
                               + length (mpiGraph src)]]
             = (numOutgoingEdges s)[h := (numOutgoingEdges s ! h)[j := 1 + length (mpiGraph src)]]"
  proof (cases "h < length (numOutgoingEdges s)")
    case True
    then show ?thesis
      by (cases "j < length (numOutgoingEdges s ! h)") (simp_all add: list_update_beyond)
  next
    case False
    then show ?thesis by (simp add: list_update_beyond)
  qed
  have "for_loop (set_incoming h) (mpiGraph src) s1 = Inr s'"
    using assms h hn row
    by (simp add: EdgeInspection_def Let_def s1_def j_def)
  from set_incoming_loop_form [OF this] obtain X where "s' = s1\<lparr>hasIncomingEdge := X\<rparr>"
    by blast
  then have "s' = s\<lparr>numOutgoingEdges :=
                      (numOutgoingEdges s)
                        [h := (numOutgoingEdges s ! h)
                                [src - lo := 1 + length (mpiGraph src)]],
                    hasIncomingEdge := X,
                    num_assigned_edges_perhost :=
                      (num_assigned_edges_perhost s)
                        [h := num_assigned_edges_perhost s ! h + length (mpiGraph src)],
                    num_assigned_nodes_perhost :=
                      (num_assigned_nodes_perhost s)
                        [h := (num_assigned_nodes_perhost s ! h + 1) mod 4294967296]\<rparr>"
    by (simp add: s1_def j_def)
  with h hn show ?thesis by blast
qed

lemma inspection_loop_form:
  "for_loop (EdgeInspection mpiGraph lo) srcs s = Inr s' \<Longrightarrow>
     \<exists>A B C D. s' = s\<lparr>numOutgoingEdges := A, hasIncomingEdge := B,
                        num_assigned_edges_perhost := C, num_assigned_nodes_perhost := D\<rparr>
       \<and> length A = length (numOutgoingEdges s)
       \<and> (\<forall>h. length (A ! h) = length (numOutgoingEdges s ! h))"
proof (induction srcs arbitrary: s)
  case Nil
  then have "s' = s\<lparr>numOutgoingEdges := numOutgoingEdges s,
                    hasIncomingEdge := hasIncomingEdge s,
                    num_assigned_edges_perhost := num_assigned_edges_perhost s,
                    num_assigned_nodes_perhost := num_assigned_nodes_perhost s\<rparr>"
    by simp
  then show ?case by blast
next
  case (Cons src srcs)
  from Cons.prems obtain s1 where 1: "EdgeInspection mpiGraph lo src s = Inr s1"
    and 2: "for_loop (EdgeInspection mpiGraph lo) srcs s1 = Inr s'"
    by (auto split: sum.splits)
  from EdgeInspection_form [OF 1] obtain h v B1 C1 D1 where
    f1: "s1 = s\<lparr>numOutgoingEdges :=
                    (numOutgoingEdges s)[h := (numOutgoingEdges s ! h)[src - lo := v]],
                  hasIncomingEdge := B1,
                  num_assigned_edges_perhost := C1, num_assigned_nodes_perhost := D1\<rparr>"
    by blast
  define A1 where "A1 = (numOutgoingEdges s)[h := (numOutgoingEdges s ! h)[src - lo := v]]"
  have s1: "s1 = s\<lparr>numOutgoingEdges := A1, hasIncomingEdge := B1,
                  num_assigned_edges_perhost := C1, num_assigned_nodes_perhost := D1\<rparr>"
    using f1 by (simp add: A1_def)
  have l1: "length A1 = length (numOutgoingEdges s)"
    by (simp add: A1_def)
  have r1: "\<forall>k. length (A1 ! k) = length (numOutgoingEdges s ! k)"
  proof
    fix k
    show "length (A1 ! k) = length (numOutgoingEdges s ! k)"
      by (cases "h < length (numOutgoingEdges s)")
         (simp_all add: A1_def nth_list_update list_update_beyond)
  qed
  from Cons.IH [OF 2] obtain A B C D where
    s': "s' = s1\<lparr>numOutgoingEdges := A, hasIncomingEdge := B,
                  num_assigned_edges_perhost := C, num_assigned_nodes_perhost := D\<rparr>"
    and l: "length A = length (numOutgoingEdges s1)"
    and r: "\<forall>h. length (A ! h) = length (numOutgoingEdges s1 ! h)"
    by blast
  have "s' = s\<lparr>numOutgoingEdges := A, hasIncomingEdge := B,
                  num_assigned_edges_perhost := C, num_assigned_nodes_perhost := D\<rparr>"
    by (simp add: s' s1)
  moreover have "length A = length (numOutgoingEdges s)"
    using l l1 by (simp add: s1)
  moreover have "\<forall>h. length (A ! h) = length (numOutgoingEdges s ! h)"
    using r r1 by (simp add: s1)
  ultimately show ?case by blast
qed





text \<open>
  The inspection pass completes on every well-formed input: every entry of the
  vertex-ID map read for the range names a host, and every edge leads to a node of the
  graph.
\<close>

lemma set_incoming_loop_returns:
  assumes "h < length (hasIncomingEdge s)"
    and "\<forall>d \<in> set ds. d < length (hasIncomingEdge s ! h)"
  shows "\<exists>s'. for_loop (set_incoming h) ds s = Inr s'"
  using assms
proof (induction ds arbitrary: s)
  case Nil
  then show ?case by simp
next
  case (Cons d ds)
  define s1 where "s1 = s\<lparr>hasIncomingEdge :=
                   (hasIncomingEdge s)[h := (hasIncomingEdge s ! h)[d := True]]\<rparr>"
  have 1: "set_incoming h d s = Inr s1"
    using Cons.prems by (simp add: set_incoming_def s1_def)
  have "h < length (hasIncomingEdge s1)"
    "\<forall>d \<in> set ds. d < length (hasIncomingEdge s1 ! h)"
    using Cons.prems by (simp_all add: s1_def)
  from Cons.IH [OF this] obtain s' where "for_loop (set_incoming h) ds s1 = Inr s'"
    by blast
  then show ?case using 1 by simp
qed

lemma set_incoming_loop_shape:
  "for_loop (set_incoming h) ds s = Inr s' \<Longrightarrow>
     length (hasIncomingEdge s') = length (hasIncomingEdge s)
     \<and> (\<forall>k. length (hasIncomingEdge s' ! k) = length (hasIncomingEdge s ! k))"
proof (induction ds arbitrary: s)
  case Nil
  then show ?case by simp
next
  case (Cons d ds)
  from Cons.prems obtain s1 where 1: "set_incoming h d s = Inr s1"
    and 2: "for_loop (set_incoming h) ds s1 = Inr s'"
    by (auto split: sum.splits)
  have s1: "s1 = s\<lparr>hasIncomingEdge :=
                   (hasIncomingEdge s)[h := (hasIncomingEdge s ! h)[d := True]]\<rparr>"
    using 1 by (auto simp: set_incoming_def split: if_splits)
  have "length (hasIncomingEdge s1) = length (hasIncomingEdge s)"
    by (simp add: s1)
  moreover have "\<forall>k. length (hasIncomingEdge s1 ! k) = length (hasIncomingEdge s ! k)"
  proof
    fix k
    show "length (hasIncomingEdge s1 ! k) = length (hasIncomingEdge s ! k)"
      by (cases "h < length (hasIncomingEdge s)")
         (simp_all add: s1 nth_list_update list_update_beyond)
  qed
  ultimately show ?case
    using Cons.IH [OF 2] by simp
qed

lemma inspection_loop_returns:
  assumes "\<forall>src \<in> set srcs. lo \<le> src \<and> src - lo < length (vertexIDMap s)
             \<and> nat (vertexIDMap s ! (src - lo) mod 4294967296) < numHosts s
             \<and> (\<forall>d \<in> set (mpiGraph src). d < n)"
    and "length (hasIncomingEdge s) = numHosts s"
    and "\<forall>h < numHosts s. length (hasIncomingEdge s ! h) = n"
  shows "\<exists>s'. for_loop (EdgeInspection mpiGraph lo) srcs s = Inr s'"
  using assms
proof (induction srcs arbitrary: s)
  case Nil
  then show ?case by simp
next
  case (Cons src srcs)
  define h where "h = nat (vertexIDMap s ! (src - lo) mod 4294967296)"
  have fh: "find_hostID_offset s (src - lo) = Inr h" and hn: "h < numHosts s"
    using Cons.prems(1) by (simp_all add: find_hostID_offset_def h_def)
  define s0 where "s0 = s\<lparr>num_assigned_nodes_perhost :=
                      (num_assigned_nodes_perhost s)
                        [h := (num_assigned_nodes_perhost s ! h + 1) mod 4294967296],
                    num_assigned_edges_perhost :=
                      (num_assigned_edges_perhost s)
                        [h := num_assigned_edges_perhost s ! h + length (mpiGraph src)],
                    numOutgoingEdges :=
                      (numOutgoingEdges s)
                        [h := ((numOutgoingEdges s)[h := (numOutgoingEdges s ! h)[src - lo := 1]] ! h)
                                [src - lo :=
                                   (numOutgoingEdges s)[h := (numOutgoingEdges s ! h)[src - lo := 1]]
                                     ! h ! (src - lo) + length (mpiGraph src)]]\<rparr>"
  have e: "EdgeInspection mpiGraph lo src s = for_loop (set_incoming h) (mpiGraph src) s0"
    using fh hn by (simp add: EdgeInspection_def Let_def s0_def)
  have "h < length (hasIncomingEdge s0)"
    "\<forall>d \<in> set (mpiGraph src). d < length (hasIncomingEdge s0 ! h)"
    using Cons.prems hn by (simp_all add: s0_def)
  from set_incoming_loop_returns [OF this] obtain s1 where
    1: "EdgeInspection mpiGraph lo src s = Inr s1"
    using e by auto
  from EdgeInspection_form [OF 1] obtain A X C D where
    s1: "s1 = s\<lparr>numOutgoingEdges := A, hasIncomingEdge := X,
                 num_assigned_edges_perhost := C, num_assigned_nodes_perhost := D\<rparr>"
    by blast
  from 1 e have l: "for_loop (set_incoming h) (mpiGraph src) s0 = Inr s1" by simp
  have shape: "length (hasIncomingEdge s1) = numHosts s"
    "\<forall>k < numHosts s. length (hasIncomingEdge s1 ! k) = n"
    using set_incoming_loop_shape [OF l] Cons.prems(2,3) by (simp_all add: s0_def)
  have "\<exists>s'. for_loop (EdgeInspection mpiGraph lo) srcs s1 = Inr s'"
    using Cons.prems(1) shape by (intro Cons.IH) (simp_all add: s1)
  then show ?case using 1 by simp
qed

lemma inspection_pass_returns:
  assumes "hostID g < length (gid2host g)" and "hostID g < numHosts g"
    and "\<forall>src. fst (gid2host g ! hostID g) \<le> src \<and> src < snd (gid2host g ! hostID g) \<longrightarrow>
           src - fst (gid2host g ! hostID g) < length (vertexIDMap g)
           \<and> nat (vertexIDMap g ! (src - fst (gid2host g ! hostID g)) mod 4294967296) < numHosts g
           \<and> (\<forall>d \<in> set (mpiGraph src). d < numGlobalNodes g)"
    and "fst (gid2host g ! hostID g) \<le> snd (gid2host g ! hostID g)"
  shows "\<exists>s. inspection_pass mpiGraph g = Inr s"
proof -
  define lo where "lo = fst (gid2host g ! hostID g)"
  define hi where "hi = snd (gid2host g ! hostID g)"
  define s0 where "s0 = hGraph.extend (g\<lparr>num_total_edges_to_receive := 0\<rparr>)
                   \<lparr>numOutgoingEdges = replicate (numHosts g) (replicate (hi - lo) 0),
                    hasIncomingEdge = replicate (numHosts g) (replicate (numGlobalNodes g) False),
                    num_assigned_edges_perhost = replicate (numHosts g) 0,
                    num_assigned_nodes_perhost = replicate (numHosts g) 0,
                    prefixSumOfEdges = [],
                    sent = []\<rparr>"
  have e: "inspection_pass mpiGraph g = for_loop (EdgeInspection mpiGraph lo) [lo..<hi] s0"
    using assms(1,2,4) by (simp add: inspection_pass_def Let_def lo_def hi_def s0_def)
  have f: "vertexIDMap s0 = vertexIDMap g" "numHosts s0 = numHosts g"
    "hasIncomingEdge s0 = replicate (numHosts g) (replicate (numGlobalNodes g) False)"
    by (simp_all add: s0_def hGraph.extend_def)
  have "\<exists>s'. for_loop (EdgeInspection mpiGraph lo) [lo..<hi] s0 = Inr s'"
  proof (rule inspection_loop_returns [where n = "numGlobalNodes g"])
    show "\<forall>src \<in> set [lo..<hi]. lo \<le> src \<and> src - lo < length (vertexIDMap s0)
             \<and> nat (vertexIDMap s0 ! (src - lo) mod 4294967296) < numHosts s0
             \<and> (\<forall>d \<in> set (mpiGraph src). d < numGlobalNodes g)"
      using assms(3) by (simp add: f lo_def hi_def)
    show "length (hasIncomingEdge s0) = numHosts s0"
      by (simp add: f)
    show "\<forall>h < numHosts s0. length (hasIncomingEdge s0 ! h) = numGlobalNodes g"
      by (simp add: f)
  qed
  then show ?thesis by (simp add: e)
qed

subsection \<open>The exchange of phase 1\<close>

lemma phase1_send_form: "\<exists>X. foldl phase1_send s xs = s\<lparr>sent := X\<rparr>"
proof (induction xs arbitrary: s)
  case Nil
  have "foldl phase1_send s [] = s\<lparr>sent := sent s\<rparr>" by simp
  then show ?case by blast
next
  case (Cons x xs)
  obtain Y where Y: "phase1_send s x = s\<lparr>sent := Y\<rparr>"
  proof (cases "x = hostID s")
    case True
    then have "phase1_send s x = s\<lparr>sent := sent s\<rparr>" by (simp add: phase1_send_def)
    then show ?thesis using that by blast
  next
    case False
    then show ?thesis using that by (simp add: phase1_send_def)
  qed
  from Cons.IH [of "s\<lparr>sent := Y\<rparr>"] obtain X where
    "foldl phase1_send (s\<lparr>sent := Y\<rparr>) xs = s\<lparr>sent := Y\<rparr>\<lparr>sent := X\<rparr>" by blast
  then have "foldl phase1_send s (x # xs) = s\<lparr>sent := X\<rparr>"
    by (simp add: Y)
  then show ?case by blast
qed

lemma phase1_receive_form:
  "phase1_receive xs inbox s = Inr s' \<Longrightarrow>
     \<exists>A B T. s' = s\<lparr>numOutgoingEdges := A, hasIncomingEdge := B,
                     num_total_edges_to_receive := T,
                     numOwned := numOwned s +
                       sum_list (map (\<lambda>p. num_nodes_from_host (snd p))
                                  (take (length (filter (\<lambda>x. x \<noteq> hostID s) xs)) inbox))\<rparr>
       \<and> length A = length (numOutgoingEdges s)
       \<and> length (filter (\<lambda>x. x \<noteq> hostID s) xs) \<le> length inbox"
proof (induction xs arbitrary: inbox s)
  case Nil
  then have "s' = s" by simp
  then show ?case
    by (intro exI [of _ "numOutgoingEdges s"] exI [of _ "hasIncomingEdge s"]
          exI [of _ "num_total_edges_to_receive s"]) simp
next
  case (Cons x xs)
  show ?case
  proof (cases "x = hostID s")
    case True
    then have "phase1_receive xs inbox s = Inr s'"
      using Cons.prems by simp
    from Cons.IH [OF this] show ?thesis
      using True by simp
  next
    case False
    from Cons.prems False obtain from_host m rest where
      inbox: "inbox = (from_host, m) # rest"
      and rec: "phase1_receive xs rest
                 (s\<lparr>numOutgoingEdges := (numOutgoingEdges s)[from_host := outgoing_from_host m],
                    hasIncomingEdge := (hasIncomingEdge s)[from_host := incoming_from_host m],
                    num_total_edges_to_receive :=
                      (num_total_edges_to_receive s + num_edges_from_host m)
                        mod 18446744073709551616,
                    numOwned := numOwned s + num_nodes_from_host m\<rparr>) = Inr s'"
      by (auto split: list.splits if_splits)
    from Cons.IH [OF rec] obtain A B T where
      s': "s' = s\<lparr>numOutgoingEdges := A, hasIncomingEdge := B,
                     num_total_edges_to_receive := T,
                     numOwned := numOwned s + num_nodes_from_host m +
                       sum_list (map (\<lambda>p. num_nodes_from_host (snd p))
                                  (take (length (filter (\<lambda>x. x \<noteq> hostID s) xs)) rest))\<rparr>"
      and l: "length A = length (numOutgoingEdges s)"
      and n: "length (filter (\<lambda>x. x \<noteq> hostID s) xs) \<le> length rest"
      by auto
    have "s' = s\<lparr>numOutgoingEdges := A, hasIncomingEdge := B,
                     num_total_edges_to_receive := T,
                     numOwned := numOwned s +
                       sum_list (map (\<lambda>p. num_nodes_from_host (snd p))
                                  (take (length (filter (\<lambda>x. x \<noteq> hostID s) (x # xs))) inbox))\<rparr>"
      using False by (simp add: s' inbox)
    then show ?thesis
      using l n False inbox by auto
  qed
qed

lemma bitwise_or_loop_form:
  "for_loop bitwise_or xs s = Inr s' \<Longrightarrow> \<exists>B. s' = s\<lparr>hasIncomingEdge := B\<rparr>"
proof (induction xs arbitrary: s)
  case Nil
  then have "s' = s\<lparr>hasIncomingEdge := hasIncomingEdge s\<rparr>" by simp
  then show ?case by blast
next
  case (Cons x xs)
  from Cons.prems obtain s1 where 1: "bitwise_or x s = Inr s1"
    and 2: "for_loop bitwise_or xs s1 = Inr s'"
    by (auto split: sum.splits)
  from 1 obtain Y where Y: "s1 = s\<lparr>hasIncomingEdge := Y\<rparr>"
  proof (cases "x = hostID s")
    case True
    then have "s1 = s\<lparr>hasIncomingEdge := hasIncomingEdge s\<rparr>"
      using 1 by (simp add: bitwise_or_def)
    then show ?thesis using that by blast
  next
    case False
    then show ?thesis using 1 that by (auto simp: bitwise_or_def split: if_splits)
  qed
  from Cons.IH [OF 2] obtain B where "s' = s1\<lparr>hasIncomingEdge := B\<rparr>" by blast
  then have "s' = s\<lparr>hasIncomingEdge := B\<rparr>" by (simp add: Y)
  then show ?case by blast
qed

lemma count_peers: "h < n \<Longrightarrow> length (filter (\<lambda>x. x \<noteq> h) [0..<n]) = n - 1"
proof -
  assume h: "h < n"
  have "[0..<n] = [0..<h] @ h # [Suc h..<n]"
    using h by (metis upt_conv_Cons upt_add_eq_append le0 le_add_diff_inverse less_imp_le_nat add_0)
  moreover have "filter (\<lambda>x. x \<noteq> h) [0..<h] = [0..<h]"
    by (induction h) simp_all
  moreover have "filter (\<lambda>x. x \<noteq> h) [Suc h..<n] = [Suc h..<n]"
    by (rule filter_True) simp
  ultimately show ?thesis using h by simp
qed

subsection \<open>The fill passes\<close>

lemma append_node_form:
  "append_node gid s =
     s\<lparr>localToGlobalVector := localToGlobalVector s @ [gid],
       globalToLocalMap := (globalToLocalMap s)(gid \<mapsto> numNodes s),
       numNodes := (numNodes s + 1) mod 4294967296,
       prefixSumOfEdges := prefixSumOfEdges s @ [numEdges s]\<rparr>"
  by (simp add: append_node_def Let_def)

lemma append_node_ids_ok:
  assumes "ids_ok s" and "gid \<notin> set (localToGlobalVector s)"
  shows "ids_ok (append_node gid s)"
proof -
  let ?L = "localToGlobalVector s"
  have d: "distinct (?L @ [gid])"
    using assms by (simp add: ids_ok_def)
  have dm: "dom ((globalToLocalMap s)(gid \<mapsto> numNodes s)) = set (?L @ [gid])"
    using assms by (simp add: ids_ok_def)
  have m: "\<forall>l < length (?L @ [gid]).
             ((globalToLocalMap s)(gid \<mapsto> numNodes s)) ((?L @ [gid]) ! l)
               = Some (l mod 4294967296)"
  proof (intro allI impI)
    fix l
    assume l: "l < length (?L @ [gid])"
    show "((globalToLocalMap s)(gid \<mapsto> numNodes s)) ((?L @ [gid]) ! l)
            = Some (l mod 4294967296)"
    proof (cases "l < length ?L")
      case True
      then have "?L ! l \<noteq> gid" using assms(2) by (metis nth_mem)
      then show ?thesis
        using True assms(1) by (simp add: nth_append ids_ok_def)
    next
      case False
      then have "l = length ?L" using l by simp
      then show ?thesis
        using assms(1) by (simp add: ids_ok_def)
    qed
  qed
  have n: "(numNodes s + 1) mod 4294967296 = length (?L @ [gid]) mod 4294967296"
    using assms(1) by (simp add: ids_ok_def mod_Suc_eq)
  have p: "length (prefixSumOfEdges s @ [numEdges s]) = length (?L @ [gid])"
    using assms(1) by (simp add: ids_ok_def)
  show ?thesis
    unfolding ids_ok_def append_node_form
    using d dm m n p by simp
qed

lemma fill_local_step:
  "fill_local (s, src) c =
     (if 0 < c
      then append_node src (s\<lparr>numEdges := (numEdges s + (c - 1)) mod 18446744073709551616\<rparr>)
      else s, src + 1)"
  by (simp add: fill_local_def Let_def)

lemma filter_upt_snoc:
  "filter (\<lambda>i. P ((xs @ [x]) ! i)) [0..<Suc (length xs)] =
     filter (\<lambda>i. P (xs ! i)) [0..<length xs] @ (if P x then [length xs] else [])"
proof -
  have "filter (\<lambda>i. P ((xs @ [x]) ! i)) [0..<length xs] = filter (\<lambda>i. P (xs ! i)) [0..<length xs]"
    by (rule filter_cong) (simp_all add: nth_append)
  then show ?thesis by simp
qed

lemma owned_src: "snd (foldl fill_local (s, src) cs) = src + length cs"
  by (induction cs arbitrary: s src) (simp_all add: fill_local_step)

lemma owned_form:
  "\<exists>E L G N P. fst (foldl fill_local (s, src) cs) =
      s\<lparr>numEdges := E, localToGlobalVector := L, globalToLocalMap := G,
        numNodes := N, prefixSumOfEdges := P\<rparr>"
proof (induction cs arbitrary: s src)
  case Nil
  have "fst (foldl fill_local (s, src) []) =
      s\<lparr>numEdges := numEdges s, localToGlobalVector := localToGlobalVector s,
        globalToLocalMap := globalToLocalMap s,
        numNodes := numNodes s, prefixSumOfEdges := prefixSumOfEdges s\<rparr>"
    by simp
  then show ?case by blast
next
  case (Cons c cs)
  obtain E1 L1 G1 N1 P1 where
    1: "fst (fill_local (s, src) c) =
          s\<lparr>numEdges := E1, localToGlobalVector := L1, globalToLocalMap := G1,
            numNodes := N1, prefixSumOfEdges := P1\<rparr>"
  proof (cases "0 < c")
    case True
    then show ?thesis
      using that by (simp add: fill_local_step append_node_form)
  next
    case False
    then have "fst (fill_local (s, src) c) =
      s\<lparr>numEdges := numEdges s, localToGlobalVector := localToGlobalVector s,
        globalToLocalMap := globalToLocalMap s,
        numNodes := numNodes s, prefixSumOfEdges := prefixSumOfEdges s\<rparr>"
      by (simp add: fill_local_step)
    then show ?thesis using that by blast
  qed
  have 2: "fill_local (s, src) c = (fst (fill_local (s, src) c), src + 1)"
    by (simp add: fill_local_step)
  from Cons.IH [of "fst (fill_local (s, src) c)" "src + 1"] obtain E L G N P where
    "fst (foldl fill_local (fst (fill_local (s, src) c), src + 1) cs) =
      (fst (fill_local (s, src) c))
        \<lparr>numEdges := E, localToGlobalVector := L, globalToLocalMap := G,
         numNodes := N, prefixSumOfEdges := P\<rparr>"
    by blast
  then have "fst (foldl fill_local (s, src) (c # cs)) =
      s\<lparr>numEdges := E, localToGlobalVector := L, globalToLocalMap := G,
        numNodes := N, prefixSumOfEdges := P\<rparr>"
    using 2 by (simp add: 1)
  then show ?case by blast
qed

lemma owned_vector:
  assumes "localToGlobalVector s = []"
  shows "localToGlobalVector (fst (foldl fill_local (s, 0) cs)) =
           filter (\<lambda>i. 0 < cs ! i) [0..<length cs]"
proof (induction cs rule: rev_induct)
  case Nil
  then show ?case using assms by simp
next
  case (snoc c cs)
  obtain s1 where s1: "foldl fill_local (s, 0) cs = (s1, length cs)"
    using owned_src [of s 0 cs] by (cases "foldl fill_local (s, 0) cs") simp
  have ih: "localToGlobalVector s1 = filter (\<lambda>i. 0 < cs ! i) [0..<length cs]"
    using snoc.IH by (simp add: s1)
  have "localToGlobalVector (fst (fill_local (s1, length cs) c)) =
          localToGlobalVector s1 @ (if 0 < c then [length cs] else [])"
    by (simp add: fill_local_step append_node_form)
  then show ?case
    using filter_upt_snoc [of "\<lambda>c. 0 < c" cs c] by (simp add: s1 ih)
qed

lemma owned_ids_ok:
  assumes "fresh s"
  shows "ids_ok (fst (foldl fill_local (s, 0) cs))"
proof (induction cs rule: rev_induct)
  case Nil
  then show ?case using assms by (simp add: fresh_def ids_ok_def)
next
  case (snoc c cs)
  obtain s1 where s1: "foldl fill_local (s, 0) cs = (s1, length cs)"
    using owned_src [of s 0 cs] by (cases "foldl fill_local (s, 0) cs") simp
  have ok: "ids_ok s1"
    using snoc.IH by (simp add: s1)
  have l: "localToGlobalVector s1 = filter (\<lambda>i. 0 < cs ! i) [0..<length cs]"
    using owned_vector [of s cs] assms by (simp add: s1 fresh_def)
  have new: "length cs \<notin> set (localToGlobalVector s1)"
    by (simp add: l)
  have ok': "ids_ok (s1\<lparr>numEdges := (numEdges s1 + (c - 1)) mod 18446744073709551616\<rparr>)"
    using ok by (simp add: ids_ok_def)
  show ?case
  proof (cases "0 < c")
    case True
    have "ids_ok (append_node (length cs)
                    (s1\<lparr>numEdges := (numEdges s1 + (c - 1)) mod 18446744073709551616\<rparr>))"
      using ok' new by (intro append_node_ids_ok) simp_all
    then show ?thesis
      using True by (simp add: s1 fill_local_step)
  next
    case False
    then show ?thesis
      using ok by (simp add: s1 fill_local_step)
  qed
qed

lemma owned_prefix_ok:
  assumes "fresh s"
  shows "prefix_ok cs (fst (foldl fill_local (s, 0) cs))"
proof (induction cs rule: rev_induct)
  case Nil
  then show ?case using assms by (simp add: fresh_def prefix_ok_def)
next
  case (snoc c cs)
  obtain s1 where s1: "foldl fill_local (s, 0) cs = (s1, length cs)"
    using owned_src [of s 0 cs] by (cases "foldl fill_local (s, 0) cs") simp
  let ?P = "prefixSumOfEdges s1" and ?L = "localToGlobalVector s1"
  have ih: "prefix_ok cs s1"
    using snoc.IH by (simp add: s1)
  have l: "?L = filter (\<lambda>i. 0 < cs ! i) [0..<length cs]"
    using owned_vector [of s cs] assms by (simp add: s1 fresh_def)
  have len: "length ?P = length ?L"
    using owned_ids_ok [OF assms, of cs] by (simp add: s1 ids_ok_def)
  have below: "\<forall>l < length ?L. ?L ! l < length cs"
  proof (intro allI impI)
    fix k assume "k < length ?L"
    then have "?L ! k \<in> set ?L" by (rule nth_mem)
    then show "?L ! k < length cs" by (simp add: l)
  qed
  have old: "\<forall>k < length ?P. (cs @ [c]) ! (?L ! k) = cs ! (?L ! k)"
    using below len by (simp add: nth_append)
  show ?case
  proof (cases "0 < c")
    case False
    have "prefix_ok (cs @ [c]) s1"
      unfolding prefix_ok_def
    proof (intro conjI allI impI)
      fix k assume k: "k < length ?P"
      have r: "?P ! k = ((if k = 0 then 0 else ?P ! (k - 1)) + (cs ! (?L ! k) - 1))
                          mod 18446744073709551616"
        using ih k unfolding prefix_ok_def by blast
      have d: "(cs @ [c]) ! (?L ! k) = cs ! (?L ! k)"
        using old k by blast
      show "?P ! k = ((if k = 0 then 0 else ?P ! (k - 1)) + ((cs @ [c]) ! (?L ! k) - 1))
                       mod 18446744073709551616"
        unfolding d using r .
    next
      show "numEdges s1 = (if ?P = [] then 0 else last ?P)"
        using ih unfolding prefix_ok_def by blast
    qed
    then show ?thesis
      using False by (simp add: s1 fill_local_step)
  next
    case True
    define E where "E = (numEdges s1 + (c - 1)) mod 18446744073709551616"
    define s2 where "s2 = append_node (length cs) (s1\<lparr>numEdges := E\<rparr>)"
    have P2: "prefixSumOfEdges s2 = ?P @ [E]"
      and L2: "localToGlobalVector s2 = ?L @ [length cs]"
      and E2: "numEdges s2 = E"
      by (simp_all add: s2_def append_node_form)
    have rec: "\<forall>k < length (?P @ [E]).
                 (?P @ [E]) ! k =
                   ((if k = 0 then 0 else (?P @ [E]) ! (k - 1))
                      + ((cs @ [c]) ! ((?L @ [length cs]) ! k) - 1)) mod 18446744073709551616"
    proof (intro allI impI)
      fix k assume k: "k < length (?P @ [E])"
      show "(?P @ [E]) ! k =
              ((if k = 0 then 0 else (?P @ [E]) ! (k - 1))
                 + ((cs @ [c]) ! ((?L @ [length cs]) ! k) - 1)) mod 18446744073709551616"
      proof (cases "k < length ?P")
        case True
        then have r: "?P ! k = ((if k = 0 then 0 else ?P ! (k - 1)) + (cs ! (?L ! k) - 1))
                                 mod 18446744073709551616"
          using ih True unfolding prefix_ok_def by blast
        have k1: "k - 1 < length ?P"
          using True by arith
        have a: "(?P @ [E]) ! k = ?P ! k" "(?P @ [E]) ! (k - 1) = ?P ! (k - 1)"
          using True k1 by (simp_all add: nth_append)
        have b: "(?L @ [length cs]) ! k = ?L ! k"
          using True len by (simp add: nth_append)
        have d: "(cs @ [c]) ! (?L ! k) = cs ! (?L ! k)"
          using old True by blast
        show ?thesis
          unfolding a b d using r .
      next
        case False
        then have kk: "k = length ?P" using k by simp
        have "numEdges s1 = (if ?P = [] then 0 else last ?P)"
          using ih unfolding prefix_ok_def by blast
        then have e: "numEdges s1 = (if k = 0 then 0 else ?P ! (k - 1))"
          by (simp add: kk last_conv_nth)
        have a: "(?P @ [E]) ! k = E" "k \<noteq> 0 \<Longrightarrow> (?P @ [E]) ! (k - 1) = ?P ! (k - 1)"
          using kk by (simp_all add: nth_append)
        have b: "(?L @ [length cs]) ! k = length cs"
          using kk len by (simp add: nth_append)
        have d: "(cs @ [c]) ! length cs = c"
          by simp
        show ?thesis
          unfolding b d a(1) using e a(2) by (cases "k = 0") (simp_all add: E_def)
      qed
    qed
    have last: "E = (if ?P @ [E] = [] then 0 else last (?P @ [E]))"
      by simp
    have "prefix_ok (cs @ [c]) s2"
      unfolding prefix_ok_def P2 L2 E2 using rec last by blast
    then show ?thesis
      using True by (simp add: s1 fill_local_step s2_def E_def)
  qed
qed

lemma nested_foldl:
  "foldl (\<lambda>st i. foldl f st (rows ! i)) st [0..<n] = foldl f st (concat (map ((!) rows) [0..<n]))"
  by (induction n arbitrary: st) simp_all

lemma fill_local_vectors_flat:
  assumes "length (numOutgoingEdges s) = numHosts s"
  shows "fill_local_vectors s = fst (foldl fill_local (s, 0) (concat (numOutgoingEdges s)))"
proof -
  have "map ((!) (numOutgoingEdges s)) [0..<numHosts s] = numOutgoingEdges s"
    using assms by (metis map_nth)
  then show ?thesis
    by (simp add: fill_local_vectors_def nested_foldl)
qed

lemma isOwned_master_or_not:
  assumes ok: "ids_ok s" and i: "i < numGlobalNodes s"
    and L: "localToGlobalVector s = M @ Gs" and K: "numOwned s = length M"
    and g: "i \<notin> set Gs"
  shows "isOwned s i = Inr (i \<in> set M)"
proof (cases "i \<in> set M")
  case True
  then obtain l where l: "l < length M" "M ! l = i"
    by (auto simp: in_set_conv_nth)
  have "l < length (localToGlobalVector s)" "localToGlobalVector s ! l = i"
    using l by (simp_all add: L nth_append)
  then have m: "globalToLocalMap s i = Some (l mod 4294967296)"
    using ok unfolding ids_ok_def by blast
  have "l mod 4294967296 \<le> l" by simp
  then have "l mod 4294967296 < numOwned s"
    using l(1) K by linarith
  then show ?thesis
    using True i m by (simp add: isOwned_def isLocal_def)
next
  case False
  then have "i \<notin> set (localToGlobalVector s)"
    using g by (simp add: L)
  then have "i \<notin> dom (globalToLocalMap s)"
    using ok by (simp add: ids_ok_def)
  then have "globalToLocalMap s i = None" by blast
  then show ?thesis
    using False i by (simp add: isOwned_def isLocal_def)
qed

lemma ghost_loop:
  assumes "for_loop fill_ghost [0..<k] s = Inr s'"
    and "k \<le> numGlobalNodes s" and "ids_ok s"
    and "numOwned s = length (localToGlobalVector s)"
  shows "(\<exists>G N. s' = s\<lparr>localToGlobalVector :=
                       localToGlobalVector s @
                         filter (\<lambda>i. hasIncomingEdge s ! hostID s ! i
                                     \<and> i \<notin> set (localToGlobalVector s)) [0..<k],
                     globalToLocalMap := G, numNodes := N,
                     prefixSumOfEdges :=
                       prefixSumOfEdges s @
                         replicate
                           (length (filter (\<lambda>i. hasIncomingEdge s ! hostID s ! i
                                                \<and> i \<notin> set (localToGlobalVector s)) [0..<k]))
                           (numEdges s)\<rparr>)
         \<and> ids_ok s' \<and> k \<le> length (hasIncomingEdge s ! hostID s)"
  using assms
proof (induction k arbitrary: s')
  case 0
  then have "s' = s" by simp
  then show ?case
    using 0
    by (intro conjI exI [of _ "globalToLocalMap s"] exI [of _ "numNodes s"]) simp_all
next
  case (Suc k)
  let ?inc = "hasIncomingEdge s ! hostID s"
  let ?M = "localToGlobalVector s"
  let ?gh = "\<lambda>k. filter (\<lambda>i. ?inc ! i \<and> i \<notin> set ?M) [0..<k]"
  from Suc.prems(1) obtain s1 where 1: "for_loop fill_ghost [0..<k] s = Inr s1"
    and 2: "fill_ghost k s1 = Inr s'"
    by (auto simp: for_loop_append split: sum.splits)
  from Suc.IH [OF 1] Suc.prems obtain G1 N1 where
    f1: "s1 = s\<lparr>localToGlobalVector := ?M @ ?gh k, globalToLocalMap := G1, numNodes := N1,
                  prefixSumOfEdges := prefixSumOfEdges s @ replicate (length (?gh k)) (numEdges s)\<rparr>"
    and ok1: "ids_ok s1" and k1: "k \<le> length ?inc"
    by auto
  have inc1: "hasIncomingEdge s1 ! hostID s1 = ?inc"
    by (simp add: f1)
  have kl: "k < length ?inc"
    using 2 by (auto simp: fill_ghost_def inc1 split: if_splits)
  have own: "isOwned s1 k = Inr (k \<in> set ?M)"
  proof (rule isOwned_master_or_not [OF ok1])
    show "k < numGlobalNodes s1" using Suc.prems(2) by (simp add: f1)
    show "localToGlobalVector s1 = ?M @ ?gh k" by (simp add: f1)
    show "numOwned s1 = length ?M" using Suc.prems(4) by (simp add: f1)
    show "k \<notin> set (?gh k)" by simp
  qed
  define gS where "gS = ?gh (Suc k)"
  have goal: "(\<exists>G N. s' = s\<lparr>localToGlobalVector := ?M @ gS,
                     globalToLocalMap := G, numNodes := N,
                     prefixSumOfEdges :=
                       prefixSumOfEdges s @ replicate (length gS) (numEdges s)\<rparr>)
         \<and> ids_ok s' \<and> Suc k \<le> length ?inc"
  proof (cases "?inc ! k \<and> k \<notin> set ?M")
    case False
    then have s': "s' = s1"
      using 2 kl own by (auto simp: fill_ghost_def inc1 split: if_splits)
    have "gS = ?gh k"
      using False by (simp add: gS_def)
    then have "s' = s\<lparr>localToGlobalVector := ?M @ gS, globalToLocalMap := G1, numNodes := N1,
                  prefixSumOfEdges := prefixSumOfEdges s @ replicate (length gS) (numEdges s)\<rparr>"
      using f1 s' by simp
    moreover have "ids_ok s'" using ok1 s' by simp
    moreover have "Suc k \<le> length ?inc" using kl by simp
    ultimately show ?thesis by blast
  next
    case True
    then have s': "s' = append_node k s1"
      using 2 kl own by (auto simp: fill_ghost_def inc1 split: if_splits)
    have gh: "gS = ?gh k @ [k]"
      using True by (simp add: gS_def)
    have new: "k \<notin> set (localToGlobalVector s1)"
      using True by (simp add: f1)
    have ok': "ids_ok s'"
      unfolding s' using ok1 new by (rule append_node_ids_ok)
    have "s' = s\<lparr>localToGlobalVector := ?M @ gS,
                  globalToLocalMap := G1(k \<mapsto> N1),
                  numNodes := (N1 + 1) mod 4294967296,
                  prefixSumOfEdges :=
                    prefixSumOfEdges s @ replicate (length gS) (numEdges s)\<rparr>"
      unfolding s' gh append_node_form
      by (simp add: f1 replicate_append_same)
    moreover have "Suc k \<le> length ?inc" using kl by simp
    ultimately show ?thesis using ok' by blast
  qed
  then show ?case
    unfolding gS_def .
qed

subsection \<open>A completed run of phase 1\<close>

lemma inspection_pass_form:
  assumes "inspection_pass mpiGraph g = Inr s"
  shows "\<exists>A B C D. s = (hGraph.extend (g\<lparr>num_total_edges_to_receive := 0\<rparr>)
                   \<lparr>numOutgoingEdges = A, hasIncomingEdge = B,
                    num_assigned_edges_perhost = C, num_assigned_nodes_perhost = D,
                    prefixSumOfEdges = [], sent = []\<rparr>)
           \<and> length A = numHosts g \<and> hostID g < numHosts g"
proof -
  define lo where "lo = fst (gid2host g ! hostID g)"
  define hi where "hi = snd (gid2host g ! hostID g)"
  define s0 where "s0 = hGraph.extend (g\<lparr>num_total_edges_to_receive := 0\<rparr>)
                   \<lparr>numOutgoingEdges = replicate (numHosts g) (replicate (hi - lo) 0),
                    hasIncomingEdge = replicate (numHosts g) (replicate (numGlobalNodes g) False),
                    num_assigned_edges_perhost = replicate (numHosts g) 0,
                    num_assigned_nodes_perhost = replicate (numHosts g) 0,
                    prefixSumOfEdges = [],
                    sent = []\<rparr>"
  have h: "hostID g < numHosts g"
    using assms by (simp add: inspection_pass_def split: if_splits)
  have run: "for_loop (EdgeInspection mpiGraph lo) [lo..<hi] s0 = Inr s"
    using assms
    by (simp add: inspection_pass_def Let_def lo_def hi_def s0_def split: if_splits)
  from inspection_loop_form [OF run] obtain A B C D where
    s: "s = s0\<lparr>numOutgoingEdges := A, hasIncomingEdge := B,
                num_assigned_edges_perhost := C, num_assigned_nodes_perhost := D\<rparr>"
    and l: "length A = length (numOutgoingEdges s0)"
    by blast
  have "s = (hGraph.extend (g\<lparr>num_total_edges_to_receive := 0\<rparr>)
                   \<lparr>numOutgoingEdges = A, hasIncomingEdge = B,
                    num_assigned_edges_perhost = C, num_assigned_nodes_perhost = D,
                    prefixSumOfEdges = [], sent = []\<rparr>)"
    by (simp add: s s0_def hGraph.extend_def)
  moreover have "length A = numHosts g"
    using l by (simp add: s0_def hGraph.extend_def)
  ultimately show ?thesis using h by blast
qed

lemma phase1_stages:
  assumes run: "assign_edges_phase1 mpiGraph ned inbox g = Inr s"
  shows "\<exists>s4. localToGlobalVector s4 = localToGlobalVector g
           \<and> globalToLocalMap s4 = globalToLocalMap g
           \<and> prefixSumOfEdges s4 = []
           \<and> length (numOutgoingEdges s4) = numHosts s4
           \<and> numHosts s4 = numHosts g \<and> hostID s4 = hostID g
           \<and> numGlobalNodes s4 = numGlobalNodes g
           \<and> numOwned s4 = num_assigned_nodes_perhost s4 ! hostID g +
                sum_list (map (\<lambda>p. num_nodes_from_host (snd p)) (take (numHosts g - 1) inbox))
           \<and> numNodes (fill_local_vectors (s4\<lparr>numNodes := 0, numEdges := 0\<rparr>)) = numOwned s4
           \<and> length (localToGlobalVector (fill_local_vectors (s4\<lparr>numNodes := 0, numEdges := 0\<rparr>)))
                = numOwned s4
           \<and> for_loop fill_ghost [0..<numGlobalNodes g]
                (fill_local_vectors (s4\<lparr>numNodes := 0, numEdges := 0\<rparr>)) = Inr s"
proof -
  from run obtain s1 where 1: "inspection_pass mpiGraph g = Inr s1"
    by (auto simp: assign_edges_phase1_def split: sum.splits)
  from inspection_pass_form [OF 1] obtain A B C D where
    s1: "s1 = (hGraph.extend (g\<lparr>num_total_edges_to_receive := 0\<rparr>)
                   \<lparr>numOutgoingEdges = A, hasIncomingEdge = B,
                    num_assigned_edges_perhost = C, num_assigned_nodes_perhost = D,
                    prefixSumOfEdges = [], sent = []\<rparr>)"
    and lA: "length A = numHosts g" and h: "hostID g < numHosts g"
    by blast
  have f1: "numHosts s1 = numHosts g" "hostID s1 = hostID g" "numGlobalNodes s1 = numGlobalNodes g"
    "localToGlobalVector s1 = localToGlobalVector g" "globalToLocalMap s1 = globalToLocalMap g"
    "prefixSumOfEdges s1 = []"
    "numOutgoingEdges s1 = A" "num_assigned_nodes_perhost s1 = D"
    by (simp_all add: s1 hGraph.extend_def)
  define s2 where "s2 = foldl phase1_send (s1\<lparr>numOwned := D ! hostID g\<rparr>) [0..<numHosts g]"
  obtain X where s2: "s2 = s1\<lparr>numOwned := D ! hostID g, sent := X\<rparr>"
    using phase1_send_form [of "s1\<lparr>numOwned := D ! hostID g\<rparr>" "[0..<numHosts g]"]
    by (auto simp: s2_def)
  have f2: "numHosts s2 = numHosts g" "hostID s2 = hostID g"
    by (simp_all add: s2 f1)
  from run 1 obtain s3 where 3: "phase1_receive [0..<numHosts g] inbox s2 = Inr s3"
    by (auto simp: assign_edges_phase1_def Let_def s2_def [symmetric] f1 f2
             split: sum.splits if_splits)
  from phase1_receive_form [OF 3] obtain A3 B3 T3 where
    s3: "s3 = s2\<lparr>numOutgoingEdges := A3, hasIncomingEdge := B3,
                 num_total_edges_to_receive := T3,
                 numOwned := numOwned s2 +
                   sum_list (map (\<lambda>p. num_nodes_from_host (snd p))
                              (take (length (filter (\<lambda>x. x \<noteq> hostID s2) [0..<numHosts g])) inbox))\<rparr>"
    and lA3: "length A3 = length (numOutgoingEdges s2)"
    by blast
  have f3: "numHosts s3 = numHosts g" "hostID s3 = hostID g"
    by (simp_all add: s3 f2)
  from run 1 3 obtain s4 where 4: "for_loop bitwise_or [0..<numHosts g] s3 = Inr s4"
    by (auto simp: assign_edges_phase1_def Let_def s2_def [symmetric] f1 f2 f3
             split: sum.splits if_splits)
  from bitwise_or_loop_form [OF 4] obtain B4 where s4: "s4 = s3\<lparr>hasIncomingEdge := B4\<rparr>"
    by blast
  have f4: "numHosts s4 = numHosts g" "hostID s4 = hostID g" "numGlobalNodes s4 = numGlobalNodes g"
    by (simp_all add: s4 s3 s2 f1)
  have fr: "localToGlobalVector s4 = localToGlobalVector g"
    "globalToLocalMap s4 = globalToLocalMap g" "prefixSumOfEdges s4 = []"
    by (simp_all add: s4 s3 s2 f1)
  have len: "length (numOutgoingEdges s4) = numHosts s4"
    using lA3 lA by (simp add: s4 s3 s2 f1)
  have own: "numOwned s4 = num_assigned_nodes_perhost s4 ! hostID g +
                sum_list (map (\<lambda>p. num_nodes_from_host (snd p)) (take (numHosts g - 1) inbox))"
    using count_peers [OF h] by (simp add: s4 s3 s2 f1)
  obtain E L G N P where
    s6: "fill_local_vectors (s4\<lparr>numNodes := 0, numEdges := 0\<rparr>) =
           s4\<lparr>numNodes := 0, numEdges := 0\<rparr>
             \<lparr>numEdges := E, localToGlobalVector := L, globalToLocalMap := G,
              numNodes := N, prefixSumOfEdges := P\<rparr>"
    using owned_form [of "s4\<lparr>numNodes := 0, numEdges := 0\<rparr>" 0
            "concat (numOutgoingEdges s4)"]
      fill_local_vectors_flat [of "s4\<lparr>numNodes := 0, numEdges := 0\<rparr>"] len
    by auto
  have f6: "numGlobalNodes (fill_local_vectors (s4\<lparr>numNodes := 0, numEdges := 0\<rparr>))
              = numGlobalNodes g"
    "numOwned (fill_local_vectors (s4\<lparr>numNodes := 0, numEdges := 0\<rparr>)) = numOwned s4"
    by (simp_all add: s6 f4)
  from run 1 3 4 have rest:
    "numNodes (fill_local_vectors (s4\<lparr>numNodes := 0, numEdges := 0\<rparr>)) = numOwned s4
     \<and> length (localToGlobalVector (fill_local_vectors (s4\<lparr>numNodes := 0, numEdges := 0\<rparr>)))
          = numOwned s4
     \<and> for_loop fill_ghost [0..<numGlobalNodes g]
          (fill_local_vectors (s4\<lparr>numNodes := 0, numEdges := 0\<rparr>)) = Inr s"
    by (auto simp: assign_edges_phase1_def Let_def s2_def [symmetric] f1 f2 f3 f4 f6
             split: sum.splits if_splits)
  show ?thesis
    using fr len f4 own rest by blast
qed

lemma phase1_summary:
  assumes run: "assign_edges_phase1 mpiGraph ned inbox g = Inr s"
    and new: "localToGlobalVector g = []" "globalToLocalMap g = Map.empty"
  shows "localToGlobalVector s = spec_masters s @ spec_ghosts s"
    and "numOwned s = length (spec_masters s)"
    and "ids_ok s"
    and "\<exists>P. prefixSumOfEdges s = P @ replicate (length (spec_ghosts s)) (numEdges s)
           \<and> length P = length (spec_masters s)
           \<and> (\<forall>l < length P.
                 P ! l = ((if l = 0 then 0 else P ! (l - 1))
                            + (concat (numOutgoingEdges s) ! (spec_masters s ! l) - 1))
                           mod 18446744073709551616)
           \<and> numEdges s = (if P = [] then 0 else last P)"
    and "numOwned s = num_assigned_nodes_perhost s ! hostID s +
           sum_list (map (\<lambda>p. num_nodes_from_host (snd p)) (take (numHosts s - 1) inbox))"
    and "hostID s = hostID g" and "numHosts s = numHosts g"
    and "numGlobalNodes s = numGlobalNodes g"
    and "numGlobalNodes s \<le> length (hasIncomingEdge s ! hostID s)"
    and "numOwned s < 4294967296"
proof -
  from phase1_stages [OF run] obtain s4 where
    fr4: "localToGlobalVector s4 = localToGlobalVector g"
      "globalToLocalMap s4 = globalToLocalMap g" "prefixSumOfEdges s4 = []"
    and len: "length (numOutgoingEdges s4) = numHosts s4"
    and f4: "numHosts s4 = numHosts g" "hostID s4 = hostID g"
      "numGlobalNodes s4 = numGlobalNodes g"
    and own: "numOwned s4 = num_assigned_nodes_perhost s4 ! hostID g +
                sum_list (map (\<lambda>p. num_nodes_from_host (snd p)) (take (numHosts g - 1) inbox))"
    and a1: "numNodes (fill_local_vectors (s4\<lparr>numNodes := 0, numEdges := 0\<rparr>)) = numOwned s4"
    and a2: "length (localToGlobalVector (fill_local_vectors (s4\<lparr>numNodes := 0, numEdges := 0\<rparr>)))
                = numOwned s4"
    and gh: "for_loop fill_ghost [0..<numGlobalNodes g]
                (fill_local_vectors (s4\<lparr>numNodes := 0, numEdges := 0\<rparr>)) = Inr s"
    by blast
  define s5 where "s5 = s4\<lparr>numNodes := 0, numEdges := 0\<rparr>"
  define cs where "cs = concat (numOutgoingEdges s4)"
  define M where "M = filter (\<lambda>i. 0 < cs ! i) [0..<length cs]"
  define s6 where "s6 = fill_local_vectors s5"
  have flat: "s6 = fst (foldl fill_local (s5, 0) cs)"
    unfolding s6_def cs_def
    using fill_local_vectors_flat [of s5] len by (simp add: s5_def)
  have fr5: "fresh s5" using fr4 new by (simp add: s5_def fresh_def)
  have L6: "localToGlobalVector s6 = M"
    unfolding flat M_def using fr5 by (intro owned_vector) (simp add: fresh_def)
  have ok6: "ids_ok s6"
    unfolding flat using fr5 by (rule owned_ids_ok)
  have p6: "prefix_ok cs s6"
    unfolding flat using fr5 by (rule owned_prefix_ok)
  obtain E G N P where
    f6: "s6 = s5\<lparr>numEdges := E, localToGlobalVector := M, globalToLocalMap := G,
                 numNodes := N, prefixSumOfEdges := P\<rparr>"
  proof -
    from owned_form [of s5 0 cs] obtain E L G N P where
      e: "s6 = s5\<lparr>numEdges := E, localToGlobalVector := L, globalToLocalMap := G,
                 numNodes := N, prefixSumOfEdges := P\<rparr>"
      unfolding flat by blast
    then have "L = M" using L6 by simp
    then show ?thesis using e that by blast
  qed
  have g6: "numGlobalNodes s6 = numGlobalNodes g" "numOwned s6 = numOwned s4"
    "hostID s6 = hostID g" "hasIncomingEdge s6 = hasIncomingEdge s4"
    "numOutgoingEdges s6 = numOutgoingEdges s4" "numEdges s6 = E" "prefixSumOfEdges s6 = P"
    "numHosts s6 = numHosts g"
    "num_assigned_nodes_perhost s6 = num_assigned_nodes_perhost s4"
    by (simp_all add: f6 s5_def f4)
  define inc where "inc = hasIncomingEdge s4 ! hostID g"
  define Gh where "Gh = filter (\<lambda>i. inc ! i \<and> i \<notin> set M) [0..<numGlobalNodes g]"
  have a2': "length (localToGlobalVector s6) = numOwned s4"
    using a2 by (simp add: s6_def s5_def)
  have gh6: "for_loop fill_ghost [0..<numGlobalNodes g] s6 = Inr s"
    using gh by (simp add: s6_def s5_def)
  have "(\<exists>G N. s = s6\<lparr>localToGlobalVector :=
                       localToGlobalVector s6 @
                         filter (\<lambda>i. hasIncomingEdge s6 ! hostID s6 ! i
                                     \<and> i \<notin> set (localToGlobalVector s6)) [0..<numGlobalNodes g],
                     globalToLocalMap := G, numNodes := N,
                     prefixSumOfEdges :=
                       prefixSumOfEdges s6 @
                         replicate
                           (length (filter (\<lambda>i. hasIncomingEdge s6 ! hostID s6 ! i
                                                \<and> i \<notin> set (localToGlobalVector s6))
                                      [0..<numGlobalNodes g]))
                           (numEdges s6)\<rparr>)
         \<and> ids_ok s \<and> numGlobalNodes g \<le> length (hasIncomingEdge s6 ! hostID s6)"
    using a2' by (intro ghost_loop [OF gh6] ok6) (simp_all add: g6)
  then obtain G' N' where
    fs: "s = s6\<lparr>localToGlobalVector := M @ Gh, globalToLocalMap := G', numNodes := N',
                 prefixSumOfEdges := P @ replicate (length Gh) E\<rparr>"
    and oks: "ids_ok s" and inl: "numGlobalNodes g \<le> length inc"
    unfolding g6 L6 Gh_def [symmetric] inc_def [symmetric] by blast
  have gs: "numOutgoingEdges s = numOutgoingEdges s4" "hasIncomingEdge s = hasIncomingEdge s4"
    "hostID s = hostID g" "numGlobalNodes s = numGlobalNodes g" "numOwned s = numOwned s4"
    "numEdges s = E" "numHosts s = numHosts g"
    "num_assigned_nodes_perhost s = num_assigned_nodes_perhost s4"
    "localToGlobalVector s = M @ Gh" "prefixSumOfEdges s = P @ replicate (length Gh) E"
    by (simp_all add: fs g6)
  have sm: "spec_masters s = M"
    by (simp add: spec_masters_def gs M_def cs_def)
  have sg: "spec_ghosts s = Gh"
    by (simp add: spec_ghosts_def sm gs Gh_def inc_def)
  show "localToGlobalVector s = spec_masters s @ spec_ghosts s"
    unfolding sm sg by (rule gs)
  show "numOwned s = length (spec_masters s)"
    using a2' by (simp add: sm gs L6)
  show "ids_ok s" by (rule oks)
  have lp: "length P = length M"
    using ok6 by (simp add: ids_ok_def g6 L6)
  have rec: "\<forall>l < length P. P ! l = ((if l = 0 then 0 else P ! (l - 1)) + (cs ! (M ! l) - 1))
                                       mod 18446744073709551616"
    using p6 unfolding prefix_ok_def g6 L6 by blast
  have lastP: "E = (if P = [] then 0 else last P)"
    using p6 unfolding prefix_ok_def g6 by blast
  have "prefixSumOfEdges s = P @ replicate (length (spec_ghosts s)) (numEdges s)
           \<and> length P = length (spec_masters s)
           \<and> (\<forall>l < length P.
                 P ! l = ((if l = 0 then 0 else P ! (l - 1))
                            + (concat (numOutgoingEdges s) ! (spec_masters s ! l) - 1))
                           mod 18446744073709551616)
           \<and> numEdges s = (if P = [] then 0 else last P)"
    unfolding sm sg gs cs_def [symmetric]
    using lp rec lastP by blast
  then show "\<exists>P. prefixSumOfEdges s = P @ replicate (length (spec_ghosts s)) (numEdges s)
           \<and> length P = length (spec_masters s)
           \<and> (\<forall>l < length P.
                 P ! l = ((if l = 0 then 0 else P ! (l - 1))
                            + (concat (numOutgoingEdges s) ! (spec_masters s ! l) - 1))
                           mod 18446744073709551616)
           \<and> numEdges s = (if P = [] then 0 else last P)"
    by blast
  show "numOwned s = num_assigned_nodes_perhost s ! hostID s +
           sum_list (map (\<lambda>p. num_nodes_from_host (snd p)) (take (numHosts s - 1) inbox))"
    using own by (simp add: gs)
  show "hostID s = hostID g" "numHosts s = numHosts g" "numGlobalNodes s = numGlobalNodes g"
    by (simp_all add: gs)
  show "numGlobalNodes s \<le> length (hasIncomingEdge s ! hostID s)"
    using inl by (simp add: gs inc_def)
  have "numNodes s6 = numOwned s4"
    using a1 by (simp add: s6_def s5_def)
  moreover have "numNodes s6 = length (localToGlobalVector s6) mod 4294967296"
    using ok6 by (simp add: ids_ok_def)
  ultimately have "numOwned s4 = numOwned s4 mod 4294967296"
    using a2' by simp
  then have "numOwned s4 < 4294967296"
    by (metis mod_less_divisor zero_less_numeral)
  then show "numOwned s < 4294967296"
    by (simp add: gs)
qed

lemma fill_ghost_loop_form:
  "for_loop fill_ghost xs s = Inr s' \<Longrightarrow>
     \<exists>L G N P. s' = s\<lparr>localToGlobalVector := L, globalToLocalMap := G,
                       numNodes := N, prefixSumOfEdges := P\<rparr>"
proof (induction xs arbitrary: s)
  case Nil
  then have "s' = s\<lparr>localToGlobalVector := localToGlobalVector s,
                    globalToLocalMap := globalToLocalMap s,
                    numNodes := numNodes s, prefixSumOfEdges := prefixSumOfEdges s\<rparr>"
    by simp
  then show ?case by blast
next
  case (Cons x xs)
  from Cons.prems obtain s1 where 1: "fill_ghost x s = Inr s1"
    and 2: "for_loop fill_ghost xs s1 = Inr s'"
    by (auto split: sum.splits)
  have "s1 = s \<or> s1 = append_node x s"
    using 1 by (auto simp: fill_ghost_def split: if_splits sum.splits)
  then obtain L1 G1 N1 P1 where
    s1: "s1 = s\<lparr>localToGlobalVector := L1, globalToLocalMap := G1,
                 numNodes := N1, prefixSumOfEdges := P1\<rparr>"
  proof
    assume "s1 = s"
    then have "s1 = s\<lparr>localToGlobalVector := localToGlobalVector s,
                    globalToLocalMap := globalToLocalMap s,
                    numNodes := numNodes s, prefixSumOfEdges := prefixSumOfEdges s\<rparr>"
      by simp
    then show ?thesis using that by blast
  next
    assume "s1 = append_node x s"
    then show ?thesis using that by (simp add: append_node_form)
  qed
  from Cons.IH [OF 2] obtain L G N P where
    "s' = s1\<lparr>localToGlobalVector := L, globalToLocalMap := G,
              numNodes := N, prefixSumOfEdges := P\<rparr>"
    by blast
  then have "s' = s\<lparr>localToGlobalVector := L, globalToLocalMap := G,
              numNodes := N, prefixSumOfEdges := P\<rparr>"
    by (simp add: s1)
  then show ?case by blast
qed

lemma steps_sorted:
  fixes xs :: "nat list"
  assumes "\<forall>l < length xs. 0 < l \<longrightarrow> xs ! (l - 1) \<le> xs ! l"
  shows "sorted xs"
  unfolding sorted_iff_nth_Suc
proof (intro allI impI)
  fix i assume "Suc i < length xs"
  then show "xs ! i \<le> xs ! Suc i"
    using assms [rule_format, of "Suc i"] by simp
qed

text \<open>The prefix sums of a completed run, entry by entry.\<close>

lemma prefix_entries:
  assumes run: "assign_edges_phase1 mpiGraph ned inbox g = Inr s"
    and new: "localToGlobalVector g = []" "globalToLocalMap g = Map.empty"
  shows "length (prefixSumOfEdges s) = length (localToGlobalVector s)"
    and "\<forall>l < length (prefixSumOfEdges s).
           prefixSumOfEdges s ! l =
             (if l < numOwned s
              then ((if l = 0 then 0 else prefixSumOfEdges s ! (l - 1))
                      + (concat (numOutgoingEdges s) ! (localToGlobalVector s ! l) - 1))
                     mod 18446744073709551616
              else (if l = 0 then 0 else prefixSumOfEdges s ! (l - 1)))"
    and "numEdges s = (if prefixSumOfEdges s = [] then 0 else last (prefixSumOfEdges s))"
proof -
  note S = phase1_summary [OF run new]
  from S(4) obtain P where
    F: "prefixSumOfEdges s = P @ replicate (length (spec_ghosts s)) (numEdges s)"
    and lP: "length P = length (spec_masters s)"
    and rec: "\<forall>l < length P.
                 P ! l = ((if l = 0 then 0 else P ! (l - 1))
                            + (concat (numOutgoingEdges s) ! (spec_masters s ! l) - 1))
                           mod 18446744073709551616"
    and E: "numEdges s = (if P = [] then 0 else last P)"
    by blast
  show "length (prefixSumOfEdges s) = length (localToGlobalVector s)"
    by (simp add: F lP S(1))
  show "numEdges s = (if prefixSumOfEdges s = [] then 0 else last (prefixSumOfEdges s))"
    using E by (cases "spec_ghosts s = []") (simp_all add: F last_append)
  show "\<forall>l < length (prefixSumOfEdges s).
           prefixSumOfEdges s ! l =
             (if l < numOwned s
              then ((if l = 0 then 0 else prefixSumOfEdges s ! (l - 1))
                      + (concat (numOutgoingEdges s) ! (localToGlobalVector s ! l) - 1))
                     mod 18446744073709551616
              else (if l = 0 then 0 else prefixSumOfEdges s ! (l - 1)))"
  proof (intro allI impI)
    fix l assume l: "l < length (prefixSumOfEdges s)"
    show "prefixSumOfEdges s ! l =
             (if l < numOwned s
              then ((if l = 0 then 0 else prefixSumOfEdges s ! (l - 1))
                      + (concat (numOutgoingEdges s) ! (localToGlobalVector s ! l) - 1))
                     mod 18446744073709551616
              else (if l = 0 then 0 else prefixSumOfEdges s ! (l - 1)))"
    proof (cases "l < length P")
      case True
      have k1: "l - 1 < length P" using True by arith
      have a: "prefixSumOfEdges s ! l = P ! l" "prefixSumOfEdges s ! (l - 1) = P ! (l - 1)"
        using True k1 by (simp_all add: F nth_append)
      have b: "localToGlobalVector s ! l = spec_masters s ! l"
        using True lP by (simp add: S(1) nth_append)
      have c: "l < numOwned s"
        using True lP by (simp add: S(2))
      have r: "P ! l = ((if l = 0 then 0 else P ! (l - 1))
                            + (concat (numOutgoingEdges s) ! (spec_masters s ! l) - 1))
                           mod 18446744073709551616"
        using rec True by blast
      show ?thesis
        unfolding a b if_P [OF c] using r .
    next
      case False
      have a: "prefixSumOfEdges s ! l = numEdges s"
        using False l by (simp add: F nth_append)
      have c: "\<not> l < numOwned s"
        using False lP by (simp add: S(2))
      have "(if l = 0 then 0 else prefixSumOfEdges s ! (l - 1)) = numEdges s"
      proof (cases "l = length P")
        case True
        then show ?thesis
          using E by (cases "P = []") (simp_all add: F nth_append last_conv_nth)
      next
        case False
        then have "length P \<le> l - 1" "l - 1 - length P < length (spec_ghosts s)" "l \<noteq> 0"
          using \<open>\<not> l < length P\<close> l by (simp_all add: F)
        then show ?thesis
          by (simp add: F nth_append)
      qed
      then show ?thesis
        unfolding a if_not_P [OF c] by simp
    qed
  qed
qed

lemma sum_list_take_le:
  fixes W :: "nat list"
  shows "sum_list (take n W) \<le> sum_list W"
proof -
  have "sum_list W = sum_list (take n W) + sum_list (drop n W)"
    by (metis append_take_drop_id sum_list_append)
  then show ?thesis by simp
qed

text \<open>
  While the sum of the steps stays below the modulus, wrapped running sums are the
  partial sums.
\<close>

lemma wrapped_sums:
  fixes P W :: "nat list"
  assumes len: "length P = length W"
    and rec: "\<forall>l < length P. P ! l = ((if l = 0 then 0 else P ! (l - 1)) + W ! l) mod N"
    and fit: "sum_list W < N"
  shows "l < length P \<Longrightarrow> P ! l = sum_list (take (Suc l) W)"
proof (induction l)
  case 0
  have "P ! 0 = W ! 0 mod N"
    using rec 0 by simp
  moreover have "take (Suc 0) W = [W ! 0]"
    using 0 len by (simp add: take_Suc_conv_app_nth)
  moreover have "sum_list (take (Suc 0) W) < N"
    using sum_list_take_le [of "Suc 0" W] fit by simp
  ultimately show ?case by simp
next
  case (Suc l)
  have ih: "P ! l = sum_list (take (Suc l) W)"
    using Suc by simp
  have "P ! Suc l = (P ! l + W ! Suc l) mod N"
    using rec [rule_format, of "Suc l"] Suc.prems by simp
  moreover have "take (Suc (Suc l)) W = take (Suc l) W @ [W ! Suc l]"
    using Suc.prems len by (simp add: take_Suc_conv_app_nth)
  moreover have "sum_list (take (Suc (Suc l)) W) < N"
    using sum_list_take_le [of "Suc (Suc l)" W] fit by simp
  ultimately show ?case
    by (simp add: ih)
qed

text \<open>
  When the edges of the masters fit the 64-bit \<open>numEdges\<close>, the prefix sum of a
  master is the number of edges of the masters up to it, and the array is
  non-decreasing.
\<close>

lemma prefix_partial_sums:
  assumes run: "assign_edges_phase1 mpiGraph ned inbox g = Inr s"
    and new: "localToGlobalVector g = []" "globalToLocalMap g = Map.empty"
    and fit: "sum_list (map (\<lambda>gid. concat (numOutgoingEdges s) ! gid - 1) (spec_masters s))
                < 18446744073709551616"
  shows "\<forall>l < numOwned s.
           prefixSumOfEdges s ! l =
             sum_list (take (Suc l)
               (map (\<lambda>gid. concat (numOutgoingEdges s) ! gid - 1) (spec_masters s)))"
    and "sorted (prefixSumOfEdges s)"
proof -
  note S = phase1_summary [OF run new]
  note E = prefix_entries [OF run new]
  define W where "W = map (\<lambda>gid. concat (numOutgoingEdges s) ! gid - 1) (spec_masters s)"
  from S(4) obtain P where
    F: "prefixSumOfEdges s = P @ replicate (length (spec_ghosts s)) (numEdges s)"
    and lP: "length P = length (spec_masters s)"
    and rec: "\<forall>l < length P.
                 P ! l = ((if l = 0 then 0 else P ! (l - 1))
                            + (concat (numOutgoingEdges s) ! (spec_masters s ! l) - 1))
                           mod 18446744073709551616"
    by blast
  have lW: "length P = length W"
    by (simp add: W_def lP)
  have recW: "\<forall>l < length P.
                P ! l = ((if l = 0 then 0 else P ! (l - 1)) + W ! l) mod 18446744073709551616"
  proof (intro allI impI)
    fix l assume l: "l < length P"
    then have w: "W ! l = concat (numOutgoingEdges s) ! (spec_masters s ! l) - 1"
      using lP by (simp add: W_def)
    show "P ! l = ((if l = 0 then 0 else P ! (l - 1)) + W ! l) mod 18446744073709551616"
      unfolding w using rec l by blast
  qed
  have fitW: "sum_list W < 18446744073709551616"
    using fit by (simp add: W_def)
  have sums: "\<forall>l < length P. P ! l = sum_list (take (Suc l) W)"
    using wrapped_sums [OF lW recW fitW] by blast
  have own: "numOwned s = length P"
    by (simp add: S(2) lP)
  show 1: "\<forall>l < numOwned s.
           prefixSumOfEdges s ! l =
             sum_list (take (Suc l)
               (map (\<lambda>gid. concat (numOutgoingEdges s) ! gid - 1) (spec_masters s)))"
  proof (intro allI impI)
    fix l assume "l < numOwned s"
    then have l: "l < length P" by (simp add: own)
    then have "prefixSumOfEdges s ! l = P ! l"
      by (simp add: F nth_append)
    then show "prefixSumOfEdges s ! l =
             sum_list (take (Suc l)
               (map (\<lambda>gid. concat (numOutgoingEdges s) ! gid - 1) (spec_masters s)))"
      using sums l by (simp add: W_def)
  qed
  have "\<forall>l < length (prefixSumOfEdges s). 0 < l \<longrightarrow>
          prefixSumOfEdges s ! (l - 1) \<le> prefixSumOfEdges s ! l"
  proof (intro allI impI)
    fix l assume l: "l < length (prefixSumOfEdges s)" and pos: "0 < l"
    show "prefixSumOfEdges s ! (l - 1) \<le> prefixSumOfEdges s ! l"
    proof (cases "l < numOwned s")
      case True
      then have lW': "l < length W" "l - 1 < numOwned s"
        using own lW by simp_all
      have a: "prefixSumOfEdges s ! l = sum_list (take (Suc l) W)"
        using 1 True by (simp add: W_def)
      have b: "prefixSumOfEdges s ! (l - 1) = sum_list (take l W)"
        using 1 [rule_format, OF lW'(2)] pos by (simp add: W_def)
      have "take (Suc l) W = take l W @ [W ! l]"
        using lW'(1) by (simp add: take_Suc_conv_app_nth)
      then show ?thesis
        unfolding a b by simp
    next
      case False
      then show ?thesis
        using E(2) [rule_format, OF l] pos by simp
    qed
  qed
  then show "sorted (prefixSumOfEdges s)"
    by (rule steps_sorted)
qed

lemma host0_run: "assign_edges_phase1 path4 2 [(1, msg_1_to_0)] host0 = Inr host0_final"
  by (simp add: part_defs host0_def host0_final_def path4_def upts reps msg_0_to_1_def
        msg_1_to_0_def numeral_2_eq_2 [symmetric])

lemma host0_new: "localToGlobalVector host0 = []" "globalToLocalMap host0 = Map.empty"
  by (simp_all add: host0_def)

text \<open>
  The message host 0 receives in the example is the one host 1 sends, and the message
  host 1 receives is the one host 0 sends.
\<close>

lemma host1_sends:
  "\<exists>s. assign_edges_phase1 path4 1 [(0, msg_0_to_1)] host1 = Inr s \<and> sent s = [(0, msg_1_to_0)]"
  by (simp add: part_defs host1_def path4_def upts reps msg_0_to_1_def msg_1_to_0_def)

text \<open>
  The counters of a peer are 64-bit values taken from its message. With a counter of
  \<open>2\<^sup>6\<^sup>4 - 1\<close> for the node 2 and of 3 for the node 3, \<open>numEdges\<close> wraps at
  the node 3 and the prefix sums decrease.
\<close>

lemma numEdges_wraps:
  "\<exists>s. assign_edges_phase1 path4 2 [(1, msg_wrap)] host0 = Inr s
       \<and> localToGlobalVector s = [1, 2, 3]
       \<and> prefixSumOfEdges s = [1, 18446744073709551615, 1] \<and> numEdges s = 1"
  by (simp add: part_defs host0_def path4_def upts reps msg_0_to_1_def msg_wrap_def)

text \<open>
  C8, as the code has it. After the exchange of phase 1, \<open>numOwned\<close> is the count
  reduced from \<open>num_assigned_nodes_perhost[self]\<close> plus the node counts received from
  the peers, one message for each of the \<open>numHosts - 1\<close> peers.
\<close>

theorem numOwned_after_exchange:
  assumes "assign_edges_phase1 mpiGraph ned inbox g = Inr s"
  shows "numOwned s =
           num_assigned_nodes_perhost s ! hostID s +
             sum_list (map (\<lambda>p. num_nodes_from_host (snd p)) (take (numHosts s - 1) inbox))"
proof -
  from phase1_stages [OF assms] obtain s4 where
    len: "length (numOutgoingEdges s4) = numHosts s4"
    and f4: "numHosts s4 = numHosts g" "hostID s4 = hostID g"
    and own: "numOwned s4 = num_assigned_nodes_perhost s4 ! hostID g +
                sum_list (map (\<lambda>p. num_nodes_from_host (snd p)) (take (numHosts g - 1) inbox))"
    and gh: "for_loop fill_ghost [0..<numGlobalNodes g]
                (fill_local_vectors (s4\<lparr>numNodes := 0, numEdges := 0\<rparr>)) = Inr s"
    by blast
  define s5 where "s5 = s4\<lparr>numNodes := 0, numEdges := 0\<rparr>"
  have "fill_local_vectors s5 = fst (foldl fill_local (s5, 0) (concat (numOutgoingEdges s5)))"
    using len by (intro fill_local_vectors_flat) (simp add: s5_def)
  with owned_form [of s5 0 "concat (numOutgoingEdges s5)"] obtain E L G N P where
    s6: "fill_local_vectors s5 =
           s5\<lparr>numEdges := E, localToGlobalVector := L, globalToLocalMap := G,
              numNodes := N, prefixSumOfEdges := P\<rparr>"
    by auto
  have gh5: "for_loop fill_ghost [0..<numGlobalNodes g] (fill_local_vectors s5) = Inr s"
    using gh by (simp add: s5_def)
  from fill_ghost_loop_form [OF gh5] obtain L' G' N' P' where
    "s = (fill_local_vectors s5)
           \<lparr>localToGlobalVector := L', globalToLocalMap := G',
            numNodes := N', prefixSumOfEdges := P'\<rparr>"
    by blast
  then have "numOwned s = numOwned s4" "num_assigned_nodes_perhost s = num_assigned_nodes_perhost s4"
    "hostID s = hostID g" "numHosts s = numHosts g"
    unfolding s6 by (simp_all add: s5_def f4)
  then show ?thesis
    using own by simp
qed

theorem numOwned_after_exchange_witness:
  "assign_edges_phase1 path4 2 [(1, msg_1_to_0)] host0 = Inr host0_final
   \<and> numOwned host0_final = 1 + num_nodes_from_host msg_1_to_0"
  using host0_run numOwned_after_exchange [OF host0_run]
  by (simp add: host0_final_def msg_1_to_0_def)

text \<open>
  C8 as stated fails on host 0 of the example: the count reduced from
  \<open>num_assigned_nodes_perhost[0]\<close> is 1, the node 1 of its own range; host 1 reports
  one more node, the node 2, and \<open>numOwned\<close> is 2 after the exchange.
\<close>

theorem numOwned_counterexample:
  "assign_edges_phase1 path4 2 [(1, msg_1_to_0)] host0 = Inr host0_final
   \<and> numOwned host0_final = 2
   \<and> num_assigned_nodes_perhost host0_final ! hostID host0_final = 1"
  using host0_run by (simp add: host0_final_def)

text \<open>
  C1. After the assignment of local ids on an object that held no node before, every
  local id \<open>l\<close> below \<open>numNodes\<close> is an index of \<open>localToGlobalVector\<close>, and
  \<open>globalToLocalMap\<close> maps the global id found there back to \<open>l\<close>; so does
  \<open>G2L\<close>, whose assertion asks for a global id below \<open>numGlobalNodes\<close>.
  Conversely, when the number of local nodes fits the 32 bits of a local id, every
  global id that \<open>G2L\<close> maps to \<open>l\<close> is the one \<open>L2G\<close> returns for \<open>l\<close>: the
  vector and the map are inverse to each other.
\<close>

theorem G2L_L2G_inverse:
  assumes run: "assign_edges_phase1 mpiGraph ned inbox g = Inr s"
    and new: "localToGlobalVector g = []" "globalToLocalMap g = Map.empty"
  shows "(\<forall>l < numNodes s.
            \<exists>gid. L2G s l = Inr gid \<and> globalToLocalMap s gid = Some l
              \<and> (gid < numGlobalNodes s \<longrightarrow> G2L s gid = Inr l))
         \<and> (length (localToGlobalVector s) < 4294967296 \<longrightarrow>
              (\<forall>gid l. G2L s gid = Inr l \<longrightarrow> l < numNodes s \<and> L2G s l = Inr gid))"
proof -
  have ok: "ids_ok s"
    using phase1_summary(3) [OF run new] .
  have n: "numNodes s = length (localToGlobalVector s) mod 4294967296"
    and m: "\<forall>l < length (localToGlobalVector s).
              globalToLocalMap s (localToGlobalVector s ! l) = Some (l mod 4294967296)"
    and d: "dom (globalToLocalMap s) = set (localToGlobalVector s)"
    using ok by (simp_all add: ids_ok_def)
  have 1: "\<forall>l < numNodes s.
            \<exists>gid. L2G s l = Inr gid \<and> globalToLocalMap s gid = Some l
              \<and> (gid < numGlobalNodes s \<longrightarrow> G2L s gid = Inr l)"
  proof (intro allI impI)
    fix l assume l: "l < numNodes s"
    have "numNodes s \<le> length (localToGlobalVector s)"
      unfolding n by simp
    then have ll: "l < length (localToGlobalVector s)" using l by simp
    have "l < 4294967296"
      using l unfolding n by (meson less_trans mod_less_divisor zero_less_numeral)
    then have "globalToLocalMap s (localToGlobalVector s ! l) = Some l"
      using m ll by simp
    then show "\<exists>gid. L2G s l = Inr gid \<and> globalToLocalMap s gid = Some l
              \<and> (gid < numGlobalNodes s \<longrightarrow> G2L s gid = Inr l)"
      using ll by (simp add: L2G_def G2L_def isLocal_def)
  qed
  have 2: "length (localToGlobalVector s) < 4294967296 \<longrightarrow>
              (\<forall>gid l. G2L s gid = Inr l \<longrightarrow> l < numNodes s \<and> L2G s l = Inr gid)"
  proof (intro allI impI)
    fix gid l
    assume fits: "length (localToGlobalVector s) < 4294967296" and g: "G2L s gid = Inr l"
    have gl: "globalToLocalMap s gid = Some l"
      using g by (auto simp: G2L_def isLocal_def split: if_splits option.splits)
    then have "gid \<in> set (localToGlobalVector s)"
      using d by blast
    then obtain i where i: "i < length (localToGlobalVector s)" "localToGlobalVector s ! i = gid"
      by (auto simp: in_set_conv_nth)
    then have "globalToLocalMap s gid = Some (i mod 4294967296)"
      using m by blast
    then have "l = i"
      using gl i(1) fits by simp
    then show "l < numNodes s \<and> L2G s l = Inr gid"
      using i fits by (simp add: n L2G_def)
  qed
  show ?thesis using 1 2 by blast
qed

theorem G2L_L2G_inverse_witness:
  "assign_edges_phase1 path4 2 [(1, msg_1_to_0)] host0 = Inr host0_final
   \<and> localToGlobalVector host0 = [] \<and> globalToLocalMap host0 = Map.empty
   \<and> numNodes host0_final = 3
   \<and> L2G host0_final 0 = Inr 1 \<and> G2L host0_final 1 = Inr 0
   \<and> L2G host0_final 1 = Inr 2 \<and> G2L host0_final 2 = Inr 1
   \<and> L2G host0_final 2 = Inr 3 \<and> G2L host0_final 3 = Inr 2"
proof -
  have l: "L2G host0_final 0 = Inr 1" "L2G host0_final 1 = Inr 2" "L2G host0_final 2 = Inr 3"
    "numNodes host0_final = 3" "numGlobalNodes host0_final = 4"
    by (simp_all add: L2G_def host0_final_def)
  have "\<forall>l < numNodes host0_final.
          \<exists>gid. L2G host0_final l = Inr gid \<and> globalToLocalMap host0_final gid = Some l
            \<and> (gid < numGlobalNodes host0_final \<longrightarrow> G2L host0_final gid = Inr l)"
    using G2L_L2G_inverse [OF host0_run host0_new] by blast
  then have "G2L host0_final 1 = Inr 0" "G2L host0_final 2 = Inr 1" "G2L host0_final 3 = Inr 2"
    using l by (auto dest: spec [of _ 0] spec [of _ 1] spec [of _ 2])
  then show ?thesis
    using host0_run host0_new l by simp
qed

text \<open>
  C2, as the code has it. After the assignment of local ids, the prefix-sum array has
  one entry for every local node, the offset at which the edges of the node end. It is
  as long as \<open>localToGlobalVector\<close>, which is \<open>numNodes\<close> when the number of
  local nodes fits the 32 bits of \<open>numNodes\<close>; it is non-decreasing when the
  edges of the masters fit the 64 bits of \<open>numEdges\<close>; and with at least one node
  its last entry, at index \<open>numNodes - 1\<close>, is \<open>numEdges\<close>, while without a node
  \<open>numEdges\<close> is 0.
\<close>

theorem prefix_sum_shape:
  assumes run: "assign_edges_phase1 mpiGraph ned inbox g = Inr s"
    and new: "localToGlobalVector g = []" "globalToLocalMap g = Map.empty"
  shows "length (prefixSumOfEdges s) = length (localToGlobalVector s)
         \<and> numNodes s = length (localToGlobalVector s) mod 4294967296
         \<and> (length (localToGlobalVector s) < 4294967296 \<longrightarrow>
               length (prefixSumOfEdges s) = numNodes s
               \<and> (0 < numNodes s \<longrightarrow> prefixSumOfEdges s ! (numNodes s - 1) = numEdges s)
               \<and> (numNodes s = 0 \<longrightarrow> numEdges s = 0))
         \<and> (sum_list (map (\<lambda>gid. concat (numOutgoingEdges s) ! gid - 1) (spec_masters s))
               < 18446744073709551616 \<longrightarrow>
             sorted (prefixSumOfEdges s))
         \<and> numEdges s = (if prefixSumOfEdges s = [] then 0 else last (prefixSumOfEdges s))"
proof -
  note P = prefix_entries [OF run new]
  have "ids_ok s"
    using phase1_summary(3) [OF run new] .
  then have n: "numNodes s = length (localToGlobalVector s) mod 4294967296"
    by (simp add: ids_ok_def)
  have srt: "sum_list (map (\<lambda>gid. concat (numOutgoingEdges s) ! gid - 1) (spec_masters s))
               < 18446744073709551616 \<longrightarrow>
             sorted (prefixSumOfEdges s)"
    using prefix_partial_sums(2) [OF run new] by blast
  have fit: "length (localToGlobalVector s) < 4294967296 \<longrightarrow>
               length (prefixSumOfEdges s) = numNodes s
               \<and> (0 < numNodes s \<longrightarrow> prefixSumOfEdges s ! (numNodes s - 1) = numEdges s)
               \<and> (numNodes s = 0 \<longrightarrow> numEdges s = 0)"
  proof
    assume "length (localToGlobalVector s) < 4294967296"
    then have len: "length (prefixSumOfEdges s) = numNodes s"
      using P(1) n by simp
    have "0 < numNodes s \<longrightarrow> prefixSumOfEdges s ! (numNodes s - 1) = numEdges s"
      using P(3) len by (auto simp: last_conv_nth)
    moreover have "numNodes s = 0 \<longrightarrow> numEdges s = 0"
      using P(3) len by auto
    ultimately show "length (prefixSumOfEdges s) = numNodes s
               \<and> (0 < numNodes s \<longrightarrow> prefixSumOfEdges s ! (numNodes s - 1) = numEdges s)
               \<and> (numNodes s = 0 \<longrightarrow> numEdges s = 0)"
      using len by blast
  qed
  show ?thesis using P(1) n fit srt P(3) by blast
qed

theorem prefix_sum_shape_witness:
  "assign_edges_phase1 path4 2 [(1, msg_1_to_0)] host0 = Inr host0_final
   \<and> localToGlobalVector host0 = [] \<and> globalToLocalMap host0 = Map.empty
   \<and> length (localToGlobalVector host0_final) < 4294967296
   \<and> sum_list (map (\<lambda>gid. concat (numOutgoingEdges host0_final) ! gid - 1)
                 (spec_masters host0_final)) < 18446744073709551616
   \<and> numNodes host0_final = 3
   \<and> length (prefixSumOfEdges host0_final) = 3 \<and> sorted (prefixSumOfEdges host0_final)
   \<and> prefixSumOfEdges host0_final ! 2 = numEdges host0_final"
proof -
  have f: "length (localToGlobalVector host0_final) < 4294967296"
    by (simp add: host0_final_def)
  have e: "sum_list (map (\<lambda>gid. concat (numOutgoingEdges host0_final) ! gid - 1)
                      (spec_masters host0_final)) < 18446744073709551616"
    by (simp add: spec_masters_def host0_final_def upts)
  have n: "numNodes host0_final = 3"
    by (simp add: host0_final_def)
  show ?thesis
    using host0_run host0_new f e prefix_sum_shape [OF host0_run host0_new]
    by (simp add: n)
qed

text \<open>
  C2 as stated fails on host 0 of the example: it ends with three local nodes and a
  prefix-sum array of three entries, not four; there is no entry at index
  \<open>numNodes\<close>.
\<close>

theorem prefix_length_counterexample:
  "assign_edges_phase1 path4 2 [(1, msg_1_to_0)] host0 = Inr host0_final
   \<and> numNodes host0_final = 3
   \<and> length (prefixSumOfEdges host0_final) = 3
   \<and> length (prefixSumOfEdges host0_final) \<noteq> numNodes host0_final + 1"
  using host0_run by (simp add: host0_final_def)

text \<open>
  C3. The assignment of local ids appends, in global order, every global id whose
  received outgoing counter is non-zero, and extends the prefix sum by the counter
  minus 1, in the 64-bit arithmetic of \<open>numEdges\<close>; then it appends, in global order, every global id that has an incoming edge
  on this host and is not owned, with the prefix sum unchanged. So the first
  \<open>numOwned\<close> entries of \<open>localToGlobalVector\<close> are the masters and the others the
  ghosts, each group in increasing order of global id. The master at index \<open>l\<close> has
  the local id \<open>l\<close>: the masters receive \<open>[0, numOwned)\<close>. When the number of
  local nodes fits the 32 bits of a local id, \<open>numNodes\<close> is the number of masters
  and ghosts and the ghost at index \<open>l\<close> has the local id \<open>l\<close>: the ghosts receive
  \<open>[numOwned, numNodes)\<close>.
\<close>

theorem local_id_assignment:
  assumes run: "assign_edges_phase1 mpiGraph ned inbox g = Inr s"
    and new: "localToGlobalVector g = []" "globalToLocalMap g = Map.empty"
  shows "take (numOwned s) (localToGlobalVector s) = spec_masters s
         \<and> drop (numOwned s) (localToGlobalVector s) = spec_ghosts s
         \<and> sorted_wrt (<) (spec_masters s) \<and> sorted_wrt (<) (spec_ghosts s)
         \<and> numOwned s = length (spec_masters s)
         \<and> (\<forall>l < numOwned s. globalToLocalMap s (localToGlobalVector s ! l) = Some l)
         \<and> (\<forall>l < numOwned s.
               prefixSumOfEdges s ! l =
                 ((if l = 0 then 0 else prefixSumOfEdges s ! (l - 1))
                    + (concat (numOutgoingEdges s) ! (localToGlobalVector s ! l) - 1))
                   mod 18446744073709551616)
         \<and> (\<forall>l. numOwned s \<le> l \<and> l < length (localToGlobalVector s) \<longrightarrow>
               prefixSumOfEdges s ! l = (if l = 0 then 0 else prefixSumOfEdges s ! (l - 1)))
         \<and> (length (localToGlobalVector s) < 4294967296 \<longrightarrow>
               numNodes s = numOwned s + length (spec_ghosts s)
               \<and> (\<forall>l. numOwned s \<le> l \<and> l < numNodes s \<longrightarrow>
                     globalToLocalMap s (localToGlobalVector s ! l) = Some l))"
proof -
  note S = phase1_summary [OF run new]
  note P = prefix_entries [OF run new]
  have n: "numNodes s = length (localToGlobalVector s) mod 4294967296"
    and m: "\<forall>l < length (localToGlobalVector s).
              globalToLocalMap s (localToGlobalVector s ! l) = Some (l mod 4294967296)"
    using S(3) by (simp_all add: ids_ok_def)
  have 1: "take (numOwned s) (localToGlobalVector s) = spec_masters s"
    and 2: "drop (numOwned s) (localToGlobalVector s) = spec_ghosts s"
    by (simp_all add: S(1) S(2))
  have 3: "sorted_wrt (<) (spec_masters s)" "sorted_wrt (<) (spec_ghosts s)"
    unfolding spec_masters_def spec_ghosts_def by (simp_all add: sorted_wrt_filter)
  have own32: "numOwned s < 4294967296"
    using S(10) .
  have le: "numOwned s \<le> length (localToGlobalVector s)"
    by (simp add: S(1) S(2))
  have 5: "\<forall>l < numOwned s. globalToLocalMap s (localToGlobalVector s ! l) = Some l"
  proof (intro allI impI)
    fix l assume l: "l < numOwned s"
    then have "l < length (localToGlobalVector s)" "l mod 4294967296 = l"
      using le own32 by simp_all
    then show "globalToLocalMap s (localToGlobalVector s ! l) = Some l"
      using m by metis
  qed
  have 6: "\<forall>l < numOwned s.
               prefixSumOfEdges s ! l =
                 ((if l = 0 then 0 else prefixSumOfEdges s ! (l - 1))
                    + (concat (numOutgoingEdges s) ! (localToGlobalVector s ! l) - 1))
                   mod 18446744073709551616"
  proof (intro allI impI)
    fix l assume l: "l < numOwned s"
    then have "l < length (prefixSumOfEdges s)"
      using le P(1) by simp
    then show "prefixSumOfEdges s ! l =
                 ((if l = 0 then 0 else prefixSumOfEdges s ! (l - 1))
                    + (concat (numOutgoingEdges s) ! (localToGlobalVector s ! l) - 1))
                   mod 18446744073709551616"
      using P(2) [rule_format, of l] l by simp
  qed
  have 7: "\<forall>l. numOwned s \<le> l \<and> l < length (localToGlobalVector s) \<longrightarrow>
               prefixSumOfEdges s ! l = (if l = 0 then 0 else prefixSumOfEdges s ! (l - 1))"
  proof (intro allI impI)
    fix l assume l: "numOwned s \<le> l \<and> l < length (localToGlobalVector s)"
    then have "l < length (prefixSumOfEdges s)"
      using P(1) by simp
    then show "prefixSumOfEdges s ! l = (if l = 0 then 0 else prefixSumOfEdges s ! (l - 1))"
      using P(2) [rule_format, of l] l by simp
  qed
  have 8: "length (localToGlobalVector s) < 4294967296 \<longrightarrow>
               numNodes s = numOwned s + length (spec_ghosts s)
               \<and> (\<forall>l. numOwned s \<le> l \<and> l < numNodes s \<longrightarrow>
                     globalToLocalMap s (localToGlobalVector s ! l) = Some l)"
  proof
    assume fits: "length (localToGlobalVector s) < 4294967296"
    then have nn: "numNodes s = length (localToGlobalVector s)"
      using n by simp
    have "\<forall>l. numOwned s \<le> l \<and> l < numNodes s \<longrightarrow>
            globalToLocalMap s (localToGlobalVector s ! l) = Some l"
    proof (intro allI impI)
      fix l assume "numOwned s \<le> l \<and> l < numNodes s"
      then have "l < length (localToGlobalVector s)" "l mod 4294967296 = l"
        using nn fits by simp_all
      then show "globalToLocalMap s (localToGlobalVector s ! l) = Some l"
        using m by metis
    qed
    then show "numNodes s = numOwned s + length (spec_ghosts s)
               \<and> (\<forall>l. numOwned s \<le> l \<and> l < numNodes s \<longrightarrow>
                     globalToLocalMap s (localToGlobalVector s ! l) = Some l)"
      using nn by (simp add: S(1) S(2))
  qed
  show ?thesis
    using 1 2 3 S(2) 5 6 7 8 by blast
qed

theorem local_id_assignment_witness:
  "assign_edges_phase1 path4 2 [(1, msg_1_to_0)] host0 = Inr host0_final
   \<and> localToGlobalVector host0 = [] \<and> globalToLocalMap host0 = Map.empty
   \<and> length (localToGlobalVector host0_final) < 4294967296
   \<and> spec_masters host0_final = [1, 2] \<and> spec_ghosts host0_final = [3]
   \<and> numOwned host0_final = 2 \<and> numNodes host0_final = 3
   \<and> localToGlobalVector host0_final = [1, 2, 3]
   \<and> prefixSumOfEdges host0_final = [1, 2, 2]"
proof -
  have f: "length (localToGlobalVector host0_final) < 4294967296"
    by (simp add: host0_final_def)
  have n: "numOwned host0_final = 2" "localToGlobalVector host0_final = [1, 2, 3]"
    "prefixSumOfEdges host0_final = [1, 2, 2]" "numNodes host0_final = 3"
    by (simp_all add: host0_final_def)
  note T = local_id_assignment [OF host0_run host0_new]
  from T have "take (numOwned host0_final) (localToGlobalVector host0_final)
                 = spec_masters host0_final"
    and "drop (numOwned host0_final) (localToGlobalVector host0_final)
                 = spec_ghosts host0_final"
    by blast+
  then have "spec_masters host0_final = [1, 2]" "spec_ghosts host0_final = [3]"
    by (simp_all add: n)
  then show ?thesis
    using host0_run host0_new f n by simp
qed

end
